theory Spec2Isabelle
  imports Main "HOL-Library.Product_Lexorder" "HOL-Library.Multiset"
begin

section \<open>pieces.js: piece library and orientation generator\<close>

text \<open>
  A shape is the source's array of \<^verbatim>\<open>[col, row]\<close> pairs. All coordinates in the
  program are integer-valued JavaScript numbers far below \<open>2^53\<close>, so they are \<open>int\<close>.
\<close>

type_synonym shape = "(int \<times> int) list"

record piece =
  pid :: string
  pshape :: shape

definition PIECES :: "piece list" where
  "PIECES =
    [\<lparr>pid = ''A'', pshape = [(0,0), (1,0), (2,0), (2,1)]\<rparr>,
     \<lparr>pid = ''B'', pshape = [(0,0), (1,0), (1,1), (2,1), (2,2)]\<rparr>,
     \<lparr>pid = ''C'', pshape = [(0,0), (1,0), (2,0), (1,1)]\<rparr>,
     \<lparr>pid = ''D'', pshape = [(0,0), (1,0), (2,0), (3,0), (3,1)]\<rparr>,
     \<lparr>pid = ''E'', pshape = [(0,0), (1,0), (1,1), (2,1), (3,1)]\<rparr>,
     \<lparr>pid = ''F'', pshape = [(0,0), (1,0), (2,0), (3,0), (1,1)]\<rparr>,
     \<lparr>pid = ''G'', pshape = [(0,0), (0,1), (1,1), (2,1), (3,1)]\<rparr>,
     \<lparr>pid = ''H'', pshape = [(0,0), (1,0), (2,0), (3,0), (0,1)]\<rparr>,
     \<lparr>pid = ''I'', pshape = [(0,0), (1,0), (2,0), (0,1), (2,1)]\<rparr>,
     \<lparr>pid = ''J'', pshape = [(0,0), (0,1), (1,1), (1,2), (2,2)]\<rparr>,
     \<lparr>pid = ''K'', pshape = [(0,0), (1,0), (0,1), (1,1)]\<rparr>,
     \<lparr>pid = ''L'', pshape = [(0,0), (1,0), (2,0)]\<rparr>]"

text \<open>\<^verbatim>\<open>PIECE_MAP\<close>: the lookup object built by \<^verbatim>\<open>Object.fromEntries\<close>; a missing key
  is \<open>None\<close> (JavaScript \<^verbatim>\<open>undefined\<close>).\<close>

definition PIECE_MAP :: "string \<Rightarrow> piece option" where
  "PIECE_MAP = map_of (map (\<lambda>p. (pid p, p)) PIECES)"

text \<open>
  \<^verbatim>\<open>normalize\<close>: translate to minimum column and row 0, then sort by row, then column.
  On the empty shape \<^verbatim>\<open>Math.min()\<close> is \<open>Infinity\<close>, the map runs over nothing and the
  result is the empty shape. Two cells that compare equal under the comparator are the
  same pair, so the sorted list does not depend on the engine's sorting algorithm.
\<close>

definition rowMajor :: "int \<times> int \<Rightarrow> int \<times> int" where
  "rowMajor = (\<lambda>(c, r). (r, c))"

definition normalize_shape :: "shape \<Rightarrow> shape" where
  "normalize_shape shape =
     (if shape = [] then []
      else let minCol = Min (set (map fst shape));
               minRow = Min (set (map snd shape))
           in sort_key rowMajor (map (\<lambda>(c, r). (c - minCol, r - minRow)) shape))"

definition rotate90CW :: "shape \<Rightarrow> shape" where
  "rotate90CW shape =
     (if shape = [] then []
      else let maxRow = Max (set (map snd shape))
           in normalize_shape (map (\<lambda>(c, r). (maxRow - r, c)) shape))"

definition flipH :: "shape \<Rightarrow> shape" where
  "flipH shape =
     (if shape = [] then []
      else let maxCol = Max (set (map fst shape))
           in normalize_shape (map (\<lambda>(c, r). (maxCol - c, r)) shape))"

text \<open>\<^verbatim>\<open>shapeKey\<close>: the cells printed as decimal \<^verbatim>\<open>c,r\<close> and joined by \<^verbatim>\<open>|\<close>.\<close>

function showNat :: "nat \<Rightarrow> string" where
  "showNat n =
     (if n < 10 then [char_of (48 + n)]
      else showNat (n div 10) @ [char_of (48 + n mod 10)])"
  by pat_completeness auto
termination
  by (relation "measure id") auto

definition showInt :: "int \<Rightarrow> string" where
  "showInt i = (if i < 0 then CHR ''-'' # showNat (nat (- i)) else showNat (nat i))"

fun joinWith :: "string \<Rightarrow> string list \<Rightarrow> string" where
  "joinWith sep [] = []"
| "joinWith sep [x] = x"
| "joinWith sep (x # y # ys) = x @ sep @ joinWith sep (y # ys)"

definition shapeKey :: "shape \<Rightarrow> string" where
  "shapeKey shape = joinWith ''|'' (map (\<lambda>(c, r). showInt c @ '','' @ showInt r) shape)"

text \<open>
  \<^verbatim>\<open>getAllOrientations\<close>. The inner loop body records \<open>current\<close> when its key is new and
  rotates; \<open>rotLoop\<close> runs it \<open>n\<close> times, threading the \<open>seen\<close> set and the output list.
\<close>

fun rotLoop :: "nat \<Rightarrow> shape \<Rightarrow> string list \<times> shape list \<Rightarrow> string list \<times> shape list" where
  "rotLoop 0 current (seen, orientations) = (seen, orientations)"
| "rotLoop (Suc n) current (seen, orientations) =
     (let key = shapeKey current in
      rotLoop n (rotate90CW current)
        (if key \<notin> set seen then (key # seen, orientations @ [current])
         else (seen, orientations)))"

definition getAllOrientations :: "shape \<Rightarrow> shape list" where
  "getAllOrientations baseShape =
     (let normalized = normalize_shape baseShape in
      snd (fold (\<lambda>startShape acc. rotLoop 4 startShape acc)
             [normalized, flipH normalized] ([], [])))"

definition ORIENTATIONS :: "string \<Rightarrow> shape list option" where
  "ORIENTATIONS = map_of (map (\<lambda>p. (pid p, getAllOrientations (pshape p))) PIECES)"


section \<open>solver.js: board primitives\<close>

text \<open>
  The board is an array of row arrays that the search mutates in place, and the entry
  points copy it first. To keep the aliasing visible, row arrays live in a store indexed
  by address, and a board is the list of the addresses of its rows (the outer array, which
  the program never writes to). A cell is \<open>None\<close> for \<^verbatim>\<open>null\<close> and \<open>Some id\<close> for a
  piece identifier.
\<close>

type_synonym cell = "string option"
type_synonym store = "cell list list"
type_synonym board = "nat list"

definition ROWS :: int where "ROWS = 5"
definition COLS :: int where "COLS = 11"

text \<open>A board as the program builds it: \<open>ROWS\<close> distinct rows of \<open>COLS\<close> cells each.\<close>

definition wf_board :: "store \<Rightarrow> board \<Rightarrow> bool" where
  "wf_board h b \<longleftrightarrow>
     int (length b) = ROWS \<and> distinct b \<and>
     list_all (\<lambda>a. a < length h \<and> int (length (h ! a)) = COLS) b"

text \<open>
  \<^verbatim>\<open>board[r][c]\<close>. The result \<open>None\<close> stands for a read outside the arrays
  (\<^verbatim>\<open>undefined\<close>, which is not \<^verbatim>\<open>=== null\<close>); on a well-formed board no guarded read
  of the solver leaves the arrays.
\<close>

definition getCell :: "store \<Rightarrow> board \<Rightarrow> int \<Rightarrow> int \<Rightarrow> cell option" where
  "getCell h b r c =
     (if 0 \<le> r \<and> nat r < length b \<and> b ! nat r < length h \<and>
         0 \<le> c \<and> nat c < length (h ! (b ! nat r))
      then Some (h ! (b ! nat r) ! nat c) else None)"

definition isNull :: "store \<Rightarrow> board \<Rightarrow> int \<Rightarrow> int \<Rightarrow> bool" where
  "isNull h b r c \<longleftrightarrow> getCell h b r c = Some None"

text \<open>
  \<^verbatim>\<open>board[r][c] = v\<close>. Every write of the solver follows a successful \<^verbatim>\<open>canPlace\<close>,
  which puts it inside the arrays; outside them (where JavaScript would throw or grow the
  row) the model leaves the store unchanged.
\<close>

definition setCell :: "store \<Rightarrow> board \<Rightarrow> int \<Rightarrow> int \<Rightarrow> cell \<Rightarrow> store" where
  "setCell h b r c v =
     (if 0 \<le> r \<and> nat r < length b \<and> b ! nat r < length h \<and>
         0 \<le> c \<and> nat c < length (h ! (b ! nat r))
      then h[b ! nat r := (h ! (b ! nat r))[nat c := v]] else h)"

definition createEmptyBoard :: "store \<Rightarrow> store \<times> board" where
  "createEmptyBoard h =
     (h @ replicate (nat ROWS) (replicate (nat COLS) None),
      [length h ..< length h + nat ROWS])"

text \<open>\<^verbatim>\<open>cloneBoard\<close>: a new outer array whose rows are fresh copies of the rows.\<close>

definition cloneBoard :: "store \<Rightarrow> board \<Rightarrow> store \<times> board" where
  "cloneBoard h b =
     (h @ map (\<lambda>a. if a < length h then h ! a else []) b,
      [length h ..< length h + length b])"

text \<open>The cells in the order of the two nested scanning loops, as \<open>(col, row)\<close>.\<close>

definition scanOrder :: "(int \<times> int) list" where
  "scanOrder = concat (map (\<lambda>r. map (\<lambda>c. (c, r)) [0..COLS - 1]) [0..ROWS - 1])"

definition findFirstEmpty :: "store \<Rightarrow> board \<Rightarrow> (int \<times> int) option" where
  "findFirstEmpty h b = find (\<lambda>(c, r). isNull h b r c) scanOrder"

definition canPlace :: "store \<Rightarrow> board \<Rightarrow> shape \<Rightarrow> int \<Rightarrow> int \<Rightarrow> bool" where
  "canPlace h b shape col row =
     list_all (\<lambda>(dc, dr).
        let c = col + dc; r = row + dr
        in 0 \<le> r \<and> r < ROWS \<and> 0 \<le> c \<and> c < COLS \<and> isNull h b r c) shape"

definition placePiece :: "store \<Rightarrow> board \<Rightarrow> string \<Rightarrow> shape \<Rightarrow> int \<Rightarrow> int \<Rightarrow> store" where
  "placePiece h b pieceId shape col row =
     fold (\<lambda>(dc, dr) h'. setCell h' b (row + dr) (col + dc) (Some pieceId)) shape h"

definition removePiece :: "store \<Rightarrow> board \<Rightarrow> string \<Rightarrow> shape \<Rightarrow> int \<Rightarrow> int \<Rightarrow> store" where
  "removePiece h b pieceId shape col row =
     fold (\<lambda>(dc, dr) h'. setCell h' b (row + dr) (col + dc) None) shape h"

subsection \<open>Island pruning\<close>

text \<open>
  The local \<^verbatim>\<open>visited\<close> array is indexed only by cells of the grid and starts all
  \<^verbatim>\<open>false\<close>; it is modelled by the set of cells marked \<^verbatim>\<open>true\<close>.
\<close>

fun visitNeighbors ::
  "store \<Rightarrow> board \<Rightarrow> (int \<times> int) list \<Rightarrow> (int \<times> int) list \<times> (int \<times> int) set
     \<Rightarrow> (int \<times> int) list \<times> (int \<times> int) set" where
  "visitNeighbors h b [] (queue, visited) = (queue, visited)"
| "visitNeighbors h b ((nc, nr) # ns) (queue, visited) =
     (if 0 \<le> nr \<and> nr < ROWS \<and> 0 \<le> nc \<and> nc < COLS \<and>
         isNull h b nr nc \<and> (nc, nr) \<notin> visited
      then visitNeighbors h b ns (queue @ [(nc, nr)], insert (nc, nr) visited)
      else visitNeighbors h b ns (queue, visited))"

definition grid :: "(int \<times> int) set" where
  "grid = {0..COLS - 1} \<times> {0..ROWS - 1}"

lemma finite_grid: "finite grid"
  by (simp add: grid_def)

lemma visitNeighbors_measure:
  "visitNeighbors h b ns (q, v) = (q', v') \<Longrightarrow>
   length q' + 2 * card (grid - v') \<le> length q + 2 * card (grid - v)"
proof (induction ns arbitrary: q v)
  case Nil
  then show ?case by simp
next
  case (Cons n ns)
  obtain nc nr where n: "n = (nc, nr)" by (cases n)
  show ?case
  proof (cases "0 \<le> nr \<and> nr < ROWS \<and> 0 \<le> nc \<and> nc < COLS \<and>
                isNull h b nr nc \<and> (nc, nr) \<notin> v")
    case True
    then have mem: "(nc, nr) \<in> grid - v" by (auto simp: grid_def)
    have "grid - insert (nc, nr) v = (grid - v) - {(nc, nr)}" by auto
    then have "card (grid - insert (nc, nr) v) = card (grid - v) - 1"
      using mem finite_grid by (simp add: card_Diff_singleton)
    moreover have "card (grid - v) > 0"
      using mem finite_grid by (metis card_gt_0_iff empty_iff finite_Diff)
    moreover have "length q' + 2 * card (grid - v')
        \<le> length (q @ [(nc, nr)]) + 2 * card (grid - insert (nc, nr) v)"
      using Cons.prems True n by (intro Cons.IH) simp
    ultimately show ?thesis by simp
  next
    case False
    then have "visitNeighbors h b ns (q, v) = (q', v')"
      using Cons.prems n by auto
    then show ?thesis by (rule Cons.IH)
  qed
qed

function bfsLoop ::
  "store \<Rightarrow> board \<Rightarrow> (int \<times> int) list \<Rightarrow> (int \<times> int) set \<Rightarrow> nat
     \<Rightarrow> nat \<times> (int \<times> int) set" where
  "bfsLoop h b [] visited sz = (sz, visited)"
| "bfsLoop h b ((c, r) # queue) visited sz =
     (case visitNeighbors h b [(c - 1, r), (c + 1, r), (c, r - 1), (c, r + 1)]
             (queue, visited) of
        (queue', visited') \<Rightarrow> bfsLoop h b queue' visited' (sz + 1))"
  by pat_completeness auto
termination
  by (relation "measure (\<lambda>(h, b, q, v, s). length q + 2 * card (grid - v))")
     (auto simp del: visitNeighbors.simps dest!: visitNeighbors_measure[OF sym])

definition bfsRegionSize ::
  "store \<Rightarrow> board \<Rightarrow> (int \<times> int) set \<Rightarrow> int \<Rightarrow> int \<Rightarrow> nat \<times> (int \<times> int) set" where
  "bfsRegionSize h b visited startCol startRow =
     bfsLoop h b [(startCol, startRow)] (insert (startCol, startRow) visited) 0"

fun islandScan :: "store \<Rightarrow> board \<Rightarrow> nat \<Rightarrow> (int \<times> int) list \<Rightarrow> (int \<times> int) set \<Rightarrow> bool" where
  "islandScan h b minPieceSize [] visited = False"
| "islandScan h b minPieceSize ((c, r) # cells) visited =
     (if isNull h b r c \<and> (c, r) \<notin> visited then
        (case bfsRegionSize h b visited c r of
           (sz, visited') \<Rightarrow>
             if sz < minPieceSize then True
             else islandScan h b minPieceSize cells visited')
      else islandScan h b minPieceSize cells visited)"

definition hasDeadIslands :: "store \<Rightarrow> board \<Rightarrow> nat \<Rightarrow> bool" where
  "hasDeadIslands h b minPieceSize =
     (if minPieceSize \<le> 1 then False
      else islandScan h b minPieceSize scanOrder {})"


section \<open>solver.js: the backtracking search\<close>

record placement =
  p_pieceId :: string
  p_shape :: shape
  p_col :: int
  p_row :: int
  p_orientationIndex :: nat

text \<open>
  What a call can do: return a value, throw the \<^verbatim>\<open>TypeError\<close> that JavaScript raises when
  a piece identifier is missing from \<^verbatim>\<open>PIECE_MAP\<close> or \<^verbatim>\<open>ORIENTATIONS\<close>, or (in the model
  only) exhaust the recursion budget.
\<close>

datatype 'a outcome = OutOfFuel | TypeError | Return 'a

text \<open>A JavaScript \<^verbatim>\<open>Set\<close> of identifiers, as the list of its elements in insertion order.\<close>

definition setAdd :: "string \<Rightarrow> string list \<Rightarrow> string list" where
  "setAdd x xs = (if x \<in> set xs then xs else xs @ [x])"

definition setDelete :: "string \<Rightarrow> string list \<Rightarrow> string list" where
  "setDelete x xs = removeAll x xs"

definition setOf :: "string list \<Rightarrow> string list" where
  "setOf xs = fold setAdd xs []"

text \<open>
  The \<^verbatim>\<open>newMin\<close> loop: the running minimum starts at \<open>Infinity\<close> (\<open>None\<close>) and is
  replaced by 1 when it is still infinite at the end.
\<close>

fun minLoop :: "string list \<Rightarrow> nat option \<Rightarrow> nat option outcome" where
  "minLoop [] newMin = Return newMin"
| "minLoop (p # ps) newMin =
     (case PIECE_MAP p of
        None \<Rightarrow> TypeError
      | Some pc \<Rightarrow>
          let sz = length (pshape pc) in
          minLoop ps (case newMin of None \<Rightarrow> Some sz
                      | Some m \<Rightarrow> if sz < m then Some sz else Some m))"

definition newMinSize :: "string list \<Rightarrow> nat outcome" where
  "newMinSize ids =
     (case minLoop ids None of
        Return None \<Rightarrow> Return 1
      | Return (Some m) \<Rightarrow> Return m
      | TypeError \<Rightarrow> TypeError
      | OutOfFuel \<Rightarrow> OutOfFuel)"

record sstate =
  st_store :: store
  st_remaining :: "string list"
  st_solution :: "placement list"

text \<open>
  \<^verbatim>\<open>_solve\<close> and its three nested loops (over the snapshot of the remaining pieces, over
  the orientations, over the cells of the shape). Each returns the boolean of the source
  and the state as the call leaves it. The parameter \<^verbatim>\<open>minPieceSize\<close> is not read by the
  source's body.
\<close>

function (sequential) solve' :: "nat \<Rightarrow> board \<Rightarrow> nat \<Rightarrow> sstate \<Rightarrow> (bool \<times> sstate) outcome"
and solvePieces ::
  "nat \<Rightarrow> board \<Rightarrow> int \<times> int \<Rightarrow> string list \<Rightarrow> sstate \<Rightarrow> (bool \<times> sstate) outcome"
and solveOrients ::
  "nat \<Rightarrow> board \<Rightarrow> int \<times> int \<Rightarrow> string \<Rightarrow> nat \<Rightarrow> shape list \<Rightarrow> sstate
     \<Rightarrow> (bool \<times> sstate) outcome"
and solveCells ::
  "nat \<Rightarrow> board \<Rightarrow> int \<times> int \<Rightarrow> string \<Rightarrow> nat \<Rightarrow> shape \<Rightarrow> (int \<times> int) list \<Rightarrow> sstate
     \<Rightarrow> (bool \<times> sstate) outcome"
where
  "solve' 0 b minPieceSize st = OutOfFuel"
| "solve' (Suc fuel) b minPieceSize st =
     (case findFirstEmpty (st_store st) b of
        None \<Rightarrow> Return (True, st)
      | Some target \<Rightarrow> solvePieces fuel b target (st_remaining st) st)"
| "solvePieces fuel b target [] st = Return (False, st)"
| "solvePieces fuel b target (pieceId # pieceIds) st =
     (case ORIENTATIONS pieceId of
        None \<Rightarrow> TypeError
      | Some orientations \<Rightarrow>
          (case solveOrients fuel b target pieceId 0 orientations st of
             Return (False, st') \<Rightarrow> solvePieces fuel b target pieceIds st'
           | r \<Rightarrow> r))"
| "solveOrients fuel b target pieceId oi [] st = Return (False, st)"
| "solveOrients fuel b target pieceId oi (shape # shapes) st =
     (case solveCells fuel b target pieceId oi shape shape st of
        Return (False, st') \<Rightarrow> solveOrients fuel b target pieceId (Suc oi) shapes st'
      | r \<Rightarrow> r)"
| "solveCells fuel b target pieceId oi shape [] st = Return (False, st)"
| "solveCells fuel b target pieceId oi shape ((dc, dr) # cells) st =
     (let placeCol = fst target - dc; placeRow = snd target - dr in
      if canPlace (st_store st) b shape placeCol placeRow then
        (let st1 = st\<lparr>st_store := placePiece (st_store st) b pieceId shape placeCol placeRow,
                      st_remaining := setDelete pieceId (st_remaining st)\<rparr> in
         case newMinSize (st_remaining st1) of
           Return newMin \<Rightarrow>
             if \<not> hasDeadIslands (st_store st1) b newMin then
               (case solve' fuel b newMin
                       (st1\<lparr>st_solution := st_solution st1 @
                          [\<lparr>p_pieceId = pieceId, p_shape = shape, p_col = placeCol,
                            p_row = placeRow, p_orientationIndex = oi\<rparr>]\<rparr>) of
                  Return (False, st2) \<Rightarrow>
                    solveCells fuel b target pieceId oi shape cells
                      (st2\<lparr>st_solution := butlast (st_solution st2),
                           st_remaining := setAdd pieceId (st_remaining st2),
                           st_store := removePiece (st_store st2) b pieceId shape
                                         placeCol placeRow\<rparr>)
                | r \<Rightarrow> r)
             else
               solveCells fuel b target pieceId oi shape cells
                 (st1\<lparr>st_remaining := setAdd pieceId (st_remaining st1),
                      st_store := removePiece (st_store st1) b pieceId shape
                                    placeCol placeRow\<rparr>)
         | TypeError \<Rightarrow> TypeError
         | OutOfFuel \<Rightarrow> OutOfFuel)
      else solveCells fuel b target pieceId oi shape cells st)"
  by pat_completeness auto
termination
  by (relation "measures
        [case_sum (case_sum (\<lambda>(f, _). f) (\<lambda>(f, _). f))
                  (case_sum (\<lambda>(f, _). f) (\<lambda>(f, _). f)),
         case_sum (case_sum (\<lambda>_. 0) (\<lambda>_. 3)) (case_sum (\<lambda>_. 2) (\<lambda>_. Suc 0)),
         case_sum (case_sum (\<lambda>_. 0) (\<lambda>(f, b, t, ids, st). length ids))
                  (case_sum (\<lambda>(f, b, t, p, oi, shapes, st). length shapes)
                            (\<lambda>(f, b, t, p, oi, shape, cells, st). length cells))]")
     auto

text \<open>
  Every recursive call of the search fills the first empty cell of the grid, so the depth
  is at most the number of cells; \<open>searchFuel\<close> is one more than that.
\<close>

definition searchFuel :: nat where
  "searchFuel = Suc (nat (ROWS * COLS))"

text \<open>
  The comparator of \<^verbatim>\<open>solve\<close> orders by decreasing cell count; \<^verbatim>\<open>Array.prototype.sort\<close>
  is stable (ECMAScript 2019). With two or more elements the comparator reads
  \<^verbatim>\<open>PIECE_MAP[id].shape\<close> of every element and throws on an unknown one.
\<close>

definition sortLargerFirst :: "string list \<Rightarrow> string list outcome" where
  "sortLargerFirst ids =
     (if length ids \<le> 1 then Return ids
      else if \<exists>i \<in> set ids. PIECE_MAP i = None then TypeError
      else Return (sort_key (\<lambda>i. - int (length (pshape (the (PIECE_MAP i))))) ids))"

text \<open>\<^verbatim>\<open>solve\<close> returns the solution or \<^verbatim>\<open>null\<close>; the model also returns the store
  as the call leaves it.\<close>

definition solve :: "store \<Rightarrow> board \<Rightarrow> string list \<Rightarrow> (placement list option \<times> store) outcome" where
  "solve h board availablePieceIds =
     (case cloneBoard h board of
        (h1, workBoard) \<Rightarrow>
          (case sortLargerFirst (setOf availablePieceIds) of
             Return sortedIds \<Rightarrow>
               (case solve' searchFuel workBoard 3
                       \<lparr>st_store = h1, st_remaining = setOf sortedIds, st_solution = []\<rparr> of
                  Return (True, st) \<Rightarrow> Return (Some (st_solution st), st_store st)
                | Return (False, st) \<Rightarrow> Return (None, st_store st)
                | TypeError \<Rightarrow> TypeError
                | OutOfFuel \<Rightarrow> OutOfFuel)
           | TypeError \<Rightarrow> TypeError
           | OutOfFuel \<Rightarrow> OutOfFuel))"


subsection \<open>The ordered variant\<close>

text \<open>
  \<^verbatim>\<open>_solveOrdered\<close> walks the array \<^verbatim>\<open>remainingIds\<close> by index and passes a new array
  without position \<open>i\<close> to the recursive call, so only the board and the solution are
  shared state. The index loop runs over \<open>[0..<length remainingIds]\<close>.
\<close>

record ostate =
  os_store :: store
  os_solution :: "placement list"

function (sequential) solveOrdered' ::
  "nat \<Rightarrow> board \<Rightarrow> string list \<Rightarrow> nat \<Rightarrow> ostate \<Rightarrow> (bool \<times> ostate) outcome"
and orderedPieces ::
  "nat \<Rightarrow> board \<Rightarrow> int \<times> int \<Rightarrow> string list \<Rightarrow> nat list \<Rightarrow> ostate
     \<Rightarrow> (bool \<times> ostate) outcome"
and orderedOrients ::
  "nat \<Rightarrow> board \<Rightarrow> int \<times> int \<Rightarrow> string list \<Rightarrow> nat \<Rightarrow> nat \<Rightarrow> shape list \<Rightarrow> ostate
     \<Rightarrow> (bool \<times> ostate) outcome"
and orderedCells ::
  "nat \<Rightarrow> board \<Rightarrow> int \<times> int \<Rightarrow> string list \<Rightarrow> nat \<Rightarrow> nat \<Rightarrow> shape
     \<Rightarrow> (int \<times> int) list \<Rightarrow> ostate \<Rightarrow> (bool \<times> ostate) outcome"
where
  "solveOrdered' 0 b remainingIds minPieceSize st = OutOfFuel"
| "solveOrdered' (Suc fuel) b remainingIds minPieceSize st =
     (case findFirstEmpty (os_store st) b of
        None \<Rightarrow> Return (True, st)
      | Some target \<Rightarrow>
          orderedPieces fuel b target remainingIds [0..<length remainingIds] st)"
| "orderedPieces fuel b target remainingIds [] st = Return (False, st)"
| "orderedPieces fuel b target remainingIds (i # is) st =
     (case ORIENTATIONS (remainingIds ! i) of
        None \<Rightarrow> TypeError
      | Some orientations \<Rightarrow>
          (case orderedOrients fuel b target remainingIds i 0 orientations st of
             Return (False, st') \<Rightarrow> orderedPieces fuel b target remainingIds is st'
           | r \<Rightarrow> r))"
| "orderedOrients fuel b target remainingIds i oi [] st = Return (False, st)"
| "orderedOrients fuel b target remainingIds i oi (shape # shapes) st =
     (case orderedCells fuel b target remainingIds i oi shape shape st of
        Return (False, st') \<Rightarrow>
          orderedOrients fuel b target remainingIds i (Suc oi) shapes st'
      | r \<Rightarrow> r)"
| "orderedCells fuel b target remainingIds i oi shape [] st = Return (False, st)"
| "orderedCells fuel b target remainingIds i oi shape ((dc, dr) # cells) st =
     (let pieceId = remainingIds ! i;
          placeCol = fst target - dc; placeRow = snd target - dr in
      if canPlace (os_store st) b shape placeCol placeRow then
        (let st1 = st\<lparr>os_store := placePiece (os_store st) b pieceId shape placeCol placeRow\<rparr>;
             newRemaining = take i remainingIds @ drop (Suc i) remainingIds in
         case newMinSize newRemaining of
           Return newMin \<Rightarrow>
             if \<not> hasDeadIslands (os_store st1) b newMin then
               (case solveOrdered' fuel b newRemaining newMin
                       (st1\<lparr>os_solution := os_solution st1 @
                          [\<lparr>p_pieceId = pieceId, p_shape = shape, p_col = placeCol,
                            p_row = placeRow, p_orientationIndex = oi\<rparr>]\<rparr>) of
                  Return (False, st2) \<Rightarrow>
                    orderedCells fuel b target remainingIds i oi shape cells
                      (st2\<lparr>os_solution := butlast (os_solution st2),
                           os_store := removePiece (os_store st2) b pieceId shape
                                         placeCol placeRow\<rparr>)
                | r \<Rightarrow> r)
             else
               orderedCells fuel b target remainingIds i oi shape cells
                 (st1\<lparr>os_store := removePiece (os_store st1) b pieceId shape
                                    placeCol placeRow\<rparr>)
         | TypeError \<Rightarrow> TypeError
         | OutOfFuel \<Rightarrow> OutOfFuel)
      else orderedCells fuel b target remainingIds i oi shape cells st)"
  by pat_completeness auto
termination
  by (relation "measures
        [case_sum (case_sum (\<lambda>(f, _). f) (\<lambda>(f, _). f))
                  (case_sum (\<lambda>(f, _). f) (\<lambda>(f, _). f)),
         case_sum (case_sum (\<lambda>_. 0) (\<lambda>_. 3)) (case_sum (\<lambda>_. 2) (\<lambda>_. Suc 0)),
         case_sum (case_sum (\<lambda>_. 0) (\<lambda>(f, b, t, ids, is, st). length is))
                  (case_sum (\<lambda>(f, b, t, ids, i, oi, shapes, st). length shapes)
                            (\<lambda>(f, b, t, ids, i, oi, shape, cells, st). length cells))]")
     auto

definition solveWithOrder ::
  "store \<Rightarrow> board \<Rightarrow> string list \<Rightarrow> (placement list option \<times> store) outcome" where
  "solveWithOrder h board orderedPieceIds =
     (case cloneBoard h board of
        (h1, workBoard) \<Rightarrow>
          (case solveOrdered' searchFuel workBoard orderedPieceIds 3
                  \<lparr>os_store = h1, os_solution = []\<rparr> of
             Return (True, st) \<Rightarrow> Return (Some (os_solution st), os_store st)
           | Return (False, st) \<Rightarrow> Return (None, os_store st)
           | TypeError \<Rightarrow> TypeError
           | OutOfFuel \<Rightarrow> OutOfFuel))"

subsection \<open>The solution counter\<close>

text \<open>
  \<^verbatim>\<open>_countSolve\<close> returns nothing; the loops of the model return \<open>True\<close> when the source
  leaves the function from inside them (the cap was reached) and \<open>False\<close> when they run to
  their end.
\<close>

record cstate =
  c_store :: store
  c_remaining :: "string list"
  c_count :: int

function (sequential) countSolve' ::
  "nat \<Rightarrow> board \<Rightarrow> int \<Rightarrow> nat \<Rightarrow> cstate \<Rightarrow> cstate outcome"
and countPieces ::
  "nat \<Rightarrow> board \<Rightarrow> int \<Rightarrow> int \<times> int \<Rightarrow> string list \<Rightarrow> cstate \<Rightarrow> (bool \<times> cstate) outcome"
and countOrients ::
  "nat \<Rightarrow> board \<Rightarrow> int \<Rightarrow> int \<times> int \<Rightarrow> string \<Rightarrow> shape list \<Rightarrow> cstate
     \<Rightarrow> (bool \<times> cstate) outcome"
and countCells ::
  "nat \<Rightarrow> board \<Rightarrow> int \<Rightarrow> int \<times> int \<Rightarrow> string \<Rightarrow> shape \<Rightarrow> (int \<times> int) list \<Rightarrow> cstate
     \<Rightarrow> (bool \<times> cstate) outcome"
where
  "countSolve' 0 b maxCount minPieceSize st = OutOfFuel"
| "countSolve' (Suc fuel) b maxCount minPieceSize st =
     (if c_count st \<ge> maxCount then Return st
      else case findFirstEmpty (c_store st) b of
        None \<Rightarrow> Return (st\<lparr>c_count := c_count st + 1\<rparr>)
      | Some target \<Rightarrow>
          (case countPieces fuel b maxCount target (c_remaining st) st of
             Return (_, st') \<Rightarrow> Return st'
           | TypeError \<Rightarrow> TypeError
           | OutOfFuel \<Rightarrow> OutOfFuel))"
| "countPieces fuel b maxCount target [] st = Return (False, st)"
| "countPieces fuel b maxCount target (pieceId # pieceIds) st =
     (case ORIENTATIONS pieceId of
        None \<Rightarrow> TypeError
      | Some orientations \<Rightarrow>
          (case countOrients fuel b maxCount target pieceId orientations st of
             Return (False, st') \<Rightarrow> countPieces fuel b maxCount target pieceIds st'
           | r \<Rightarrow> r))"
| "countOrients fuel b maxCount target pieceId [] st = Return (False, st)"
| "countOrients fuel b maxCount target pieceId (shape # shapes) st =
     (case countCells fuel b maxCount target pieceId shape shape st of
        Return (False, st') \<Rightarrow> countOrients fuel b maxCount target pieceId shapes st'
      | r \<Rightarrow> r)"
| "countCells fuel b maxCount target pieceId shape [] st = Return (False, st)"
| "countCells fuel b maxCount target pieceId shape ((dc, dr) # cells) st =
     (let placeCol = fst target - dc; placeRow = snd target - dr in
      if canPlace (c_store st) b shape placeCol placeRow then
        (let st1 = st\<lparr>c_store := placePiece (c_store st) b pieceId shape placeCol placeRow,
                      c_remaining := setDelete pieceId (c_remaining st)\<rparr> in
         case newMinSize (c_remaining st1) of
           Return newMin \<Rightarrow>
             if \<not> hasDeadIslands (c_store st1) b newMin then
               (case countSolve' fuel b maxCount newMin st1 of
                  Return st2 \<Rightarrow>
                    (let st3 = st2\<lparr>c_remaining := setAdd pieceId (c_remaining st2),
                                    c_store := removePiece (c_store st2) b pieceId shape
                                                 placeCol placeRow\<rparr> in
                     if c_count st2 \<ge> maxCount then Return (True, st3)
                     else countCells fuel b maxCount target pieceId shape cells st3)
                | TypeError \<Rightarrow> TypeError
                | OutOfFuel \<Rightarrow> OutOfFuel)
             else
               countCells fuel b maxCount target pieceId shape cells
                 (st1\<lparr>c_remaining := setAdd pieceId (c_remaining st1),
                      c_store := removePiece (c_store st1) b pieceId shape
                                   placeCol placeRow\<rparr>)
         | TypeError \<Rightarrow> TypeError
         | OutOfFuel \<Rightarrow> OutOfFuel)
      else countCells fuel b maxCount target pieceId shape cells st)"
  by pat_completeness auto
termination
  by (relation "measures
        [case_sum (case_sum (\<lambda>(f, _). f) (\<lambda>(f, _). f))
                  (case_sum (\<lambda>(f, _). f) (\<lambda>(f, _). f)),
         case_sum (case_sum (\<lambda>_. 0) (\<lambda>_. 3)) (case_sum (\<lambda>_. 2) (\<lambda>_. Suc 0)),
         case_sum (case_sum (\<lambda>_. 0) (\<lambda>(f, b, k, t, ids, st). length ids))
                  (case_sum (\<lambda>(f, b, k, t, p, shapes, st). length shapes)
                            (\<lambda>(f, b, k, t, p, shape, cells, st). length cells))]")
     auto

definition countSolutions :: "store \<Rightarrow> board \<Rightarrow> string list \<Rightarrow> int \<Rightarrow> (int \<times> store) outcome" where
  "countSolutions h board availablePieceIds maxCount =
     (case cloneBoard h board of
        (h1, workBoard) \<Rightarrow>
          (case countSolve' searchFuel workBoard maxCount 3
                  \<lparr>c_store = h1, c_remaining = setOf availablePieceIds, c_count = 0\<rparr> of
             Return st \<Rightarrow> Return (c_count st, c_store st)
           | TypeError \<Rightarrow> TypeError
           | OutOfFuel \<Rightarrow> OutOfFuel))"


section \<open>Orientation tables\<close>

lemma length_normalize: "length (normalize_shape s) = length s"
  by (simp add: normalize_shape_def Let_def)

lemma length_rotate90CW: "length (rotate90CW s) = length s"
  by (simp add: rotate90CW_def Let_def length_normalize)

lemma length_flipH: "length (flipH s) = length s"
  by (simp add: flipH_def Let_def length_normalize)

lemma rotLoop_lengths:
  "rotLoop n cur (seen, acc) = (seen', acc') \<Longrightarrow> length cur = k \<Longrightarrow>
   \<forall>t \<in> set acc. length t = k \<Longrightarrow> \<forall>t \<in> set acc'. length t = k"
proof (induction n arbitrary: cur seen acc)
  case 0
  then show ?case by simp
next
  case (Suc n)
  show ?case
  proof (cases "shapeKey cur \<in> set seen")
    case True
    with Suc.prems have "rotLoop n (rotate90CW cur) (seen, acc) = (seen', acc')" by simp
    from Suc.IH[OF this] Suc.prems show ?thesis by (simp add: length_rotate90CW)
  next
    case False
    with Suc.prems have "rotLoop n (rotate90CW cur) (shapeKey cur # seen, acc @ [cur]) = (seen', acc')"
      by simp
    from Suc.IH[OF this] Suc.prems show ?thesis by (simp add: length_rotate90CW)
  qed
qed

lemma getAllOrientations_lengths:
  assumes "t \<in> set (getAllOrientations s)"
  shows "length t = length s"
proof -
  obtain seen1 acc1 where r1: "rotLoop 4 (normalize_shape s) ([], []) = (seen1, acc1)"
    by (cases "rotLoop 4 (normalize_shape s) ([], [])")
  obtain seen2 acc2 where r2: "rotLoop 4 (flipH (normalize_shape s)) (seen1, acc1) = (seen2, acc2)"
    by (cases "rotLoop 4 (flipH (normalize_shape s)) (seen1, acc1)")
  have a1: "\<forall>t \<in> set acc1. length t = length s"
    using rotLoop_lengths[OF r1, of "length s"] by (simp add: length_normalize)
  have a2: "\<forall>t \<in> set acc2. length t = length s"
    using rotLoop_lengths[OF r2, of "length s"] a1 by (simp add: length_normalize length_flipH)
  have "getAllOrientations s = acc2"
    using r1 r2 by (simp add: getAllOrientations_def Let_def)
  with a2 assms show ?thesis by simp
qed

lemma distinct_piece_ids: "distinct (map pid PIECES)"
  by (simp add: PIECES_def)

lemma ORIENTATIONS_Some:
  "ORIENTATIONS i = Some os \<longleftrightarrow> (\<exists>p \<in> set PIECES. pid p = i \<and> os = getAllOrientations (pshape p))"
proof -
  have d: "distinct (map fst (map (\<lambda>p. (pid p, getAllOrientations (pshape p))) PIECES))"
    using distinct_piece_ids by (simp add: comp_def)
  show ?thesis
    unfolding ORIENTATIONS_def map_of_eq_Some_iff[OF d] by auto
qed

lemma PIECE_MAP_Some:
  "PIECE_MAP i = Some p \<longleftrightarrow> (p \<in> set PIECES \<and> pid p = i)"
proof -
  have d: "distinct (map fst (map (\<lambda>p. (pid p, p)) PIECES))"
    using distinct_piece_ids by (simp add: comp_def)
  show ?thesis
    unfolding PIECE_MAP_def map_of_eq_Some_iff[OF d] by auto
qed


section \<open>Rotation and reflection laws\<close>

text \<open>Two cell lists are \<open>translate_eq\<close> when one is a permutation of a translate of the other;
  normalization identifies exactly such lists.\<close>

definition shift :: "int \<Rightarrow> int \<Rightarrow> int \<times> int \<Rightarrow> int \<times> int" where
  "shift a b = (\<lambda>(c, r). (c + a, r + b))"

definition translate_eq :: "shape \<Rightarrow> shape \<Rightarrow> bool" where
  "translate_eq s t \<longleftrightarrow> (\<exists>a b. mset t = mset (map (shift a b) s))"

lemma inj_rowMajor: "inj_on rowMajor A"
  by (auto simp: inj_on_def rowMajor_def)

lemma sort_key_mset_cong:
  assumes "mset xs = mset ys"
  shows "sort_key rowMajor xs = sort_key rowMajor ys"
proof (rule sort_key_inj_key_eq)
  show "mset xs = mset (sort_key rowMajor ys)" using assms by simp
  show "inj_on rowMajor (set xs)" by (rule inj_rowMajor)
  show "sorted (map rowMajor (sort_key rowMajor ys))" by (rule sorted_sort_key)
qed

lemma shift_minus: "(\<lambda>(c, r). (c - m, r - n)) = shift (- m) (- n)"
  by (auto simp: shift_def fun_eq_iff)

definition minCol :: "shape \<Rightarrow> int" where "minCol s = Min (set (map fst s))"
definition minRow :: "shape \<Rightarrow> int" where "minRow s = Min (set (map snd s))"

lemma normalize_shape_shift:
  "normalize_shape s = (if s = [] then [] else
     sort_key rowMajor (map (shift (- minCol s) (- minRow s)) s))"
  unfolding normalize_shape_def Let_def shift_minus minCol_def minRow_def by (rule refl)

lemma mset_map_mset_cong: "mset t = mset u \<Longrightarrow> mset (map f t) = mset (map f u)"
  by (metis mset_map)

lemma minCol_set_cong: "set t = set u \<Longrightarrow> minCol t = minCol u"
  by (simp add: minCol_def)

lemma minRow_set_cong: "set t = set u \<Longrightarrow> minRow t = minRow u"
  by (simp add: minRow_def)

lemma minCol_shift:
  assumes "s \<noteq> []"
  shows "minCol (map (shift a b) s) = minCol s + a"
proof -
  have "set (map fst (map (shift a b) s)) = (\<lambda>x. x + a) ` set (map fst s)"
    by (force simp: shift_def image_iff split: prod.splits)
  moreover have "Min ((\<lambda>x. x + a) ` set (map fst s)) = Min (set (map fst s)) + a"
    using assms by (intro mono_Min_commute[symmetric]) (auto simp: mono_def)
  ultimately show ?thesis by (simp only: minCol_def)
qed

lemma minRow_shift:
  assumes "s \<noteq> []"
  shows "minRow (map (shift a b) s) = minRow s + b"
proof -
  have "set (map snd (map (shift a b) s)) = (\<lambda>x. x + b) ` set (map snd s)"
    by (force simp: shift_def image_iff split: prod.splits)
  moreover have "Min ((\<lambda>x. x + b) ` set (map snd s)) = Min (set (map snd s)) + b"
    using assms by (intro mono_Min_commute[symmetric]) (auto simp: mono_def)
  ultimately show ?thesis by (simp only: minRow_def)
qed

lemma shift_shift: "shift a b (shift c d x) = shift (a + c) (b + d) x"
  by (cases x) (simp add: shift_def)

lemma normalize_shape_translate_eq:
  assumes "translate_eq s t"
  shows "normalize_shape t = normalize_shape s"
proof -
  from assms obtain a b where ms: "mset t = mset (map (shift a b) s)"
    by (auto simp: translate_eq_def)
  show ?thesis
  proof (cases "s = []")
    case True
    with ms show ?thesis by (simp add: normalize_shape_def)
  next
    case False
    with ms have tne: "t \<noteq> []" by auto
    have st: "set t = set (map (shift a b) s)" using ms by (rule mset_eq_setD)
    have m1: "minCol t = minCol s + a"
      using minCol_shift[OF False, of a b] minCol_set_cong[OF st] by simp
    have m2: "minRow t = minRow s + b"
      using minRow_shift[OF False, of a b] minRow_set_cong[OF st] by simp
    have "mset (map (shift (- minCol t) (- minRow t)) t)
        = mset (map (shift (- minCol t) (- minRow t)) (map (shift a b) s))"
      using ms by (rule mset_map_mset_cong)
    also have "\<dots> = mset (map (shift (- minCol s) (- minRow s)) s)"
      by (simp add: m1 m2 comp_def shift_shift)
    finally show ?thesis
      using False tne by (simp add: normalize_shape_shift sort_key_mset_cong)
  qed
qed

lemma translate_eq_refl: "translate_eq s s"
  unfolding translate_eq_def by (rule exI[of _ 0], rule exI[of _ 0]) (simp add: shift_def)

lemma translate_eq_trans: "translate_eq s t \<Longrightarrow> translate_eq t u \<Longrightarrow> translate_eq s u"
proof -
  assume "translate_eq s t" "translate_eq t u"
  then obtain a b c d where 1: "mset t = mset (map (shift a b) s)"
    and 2: "mset u = mset (map (shift c d) t)" by (auto simp: translate_eq_def)
  have "mset u = mset (map (shift c d) (map (shift a b) s))"
    using 2 mset_map_mset_cong[OF 1] by simp
  also have "\<dots> = mset (map (shift (c + a) (d + b)) s)"
    by (simp add: comp_def shift_shift)
  finally show ?thesis unfolding translate_eq_def by blast
qed

lemma translate_eq_normalize_shape: "translate_eq s (normalize_shape s)"
  unfolding translate_eq_def
  by (cases "s = []") (auto simp: normalize_shape_shift)

lemma translate_eq_map:
  assumes "translate_eq s t" and "\<And>a b. \<exists>a' b'. \<forall>x. f (shift a b x) = shift a' b' (f x)"
  shows "translate_eq (map f s) (map f t)"
proof -
  from assms(1) obtain a b where ms: "mset t = mset (map (shift a b) s)"
    by (auto simp: translate_eq_def)
  from assms(2) obtain a' b' where f: "\<And>x. f (shift a b x) = shift a' b' (f x)" by blast
  have "mset (map f t) = mset (map f (map (shift a b) s))"
    using ms by (rule mset_map_mset_cong)
  also have "\<dots> = mset (map (shift a' b') (map f s))"
    by (simp add: comp_def f)
  finally show ?thesis unfolding translate_eq_def by blast
qed

definition quarterTurn :: "int \<times> int \<Rightarrow> int \<times> int" where
  "quarterTurn = (\<lambda>(c, r). (- r, c))"

definition mirror :: "int \<times> int \<Rightarrow> int \<times> int" where
  "mirror = (\<lambda>(c, r). (- c, r))"

lemma quarterTurn_shift: "\<exists>a' b'. \<forall>x. quarterTurn (shift a b x) = shift a' b' (quarterTurn x)"
  by (rule exI[of _ "- b"], rule exI[of _ a]) (auto simp: quarterTurn_def shift_def)

lemma mirror_shift: "\<exists>a' b'. \<forall>x. mirror (shift a b x) = shift a' b' (mirror x)"
  by (rule exI[of _ "- a"], rule exI[of _ b]) (auto simp: mirror_def shift_def)

lemma rotate90CW_translate_eq: "translate_eq (map quarterTurn s) (rotate90CW s)"
proof (cases "s = []")
  case True
  then show ?thesis by (simp add: rotate90CW_def translate_eq_refl)
next
  case False
  let ?M = "Max (set (map snd s))"
  have "map (\<lambda>(c, r). (?M - r, c)) s = map (shift ?M 0) (map quarterTurn s)"
    by (auto simp: shift_def quarterTurn_def)
  then have "translate_eq (map quarterTurn s) (map (\<lambda>(c, r). (?M - r, c)) s)"
    unfolding translate_eq_def by metis
  then show ?thesis
    using False translate_eq_trans[OF _ translate_eq_normalize_shape]
    by (simp add: rotate90CW_def Let_def)
qed

lemma flipH_translate_eq: "translate_eq (map mirror s) (flipH s)"
proof (cases "s = []")
  case True
  then show ?thesis by (simp add: flipH_def translate_eq_refl)
next
  case False
  let ?M = "Max (set (map fst s))"
  have "map (\<lambda>(c, r). (?M - c, r)) s = map (shift ?M 0) (map mirror s)"
    by (auto simp: shift_def mirror_def)
  then have "translate_eq (map mirror s) (map (\<lambda>(c, r). (?M - c, r)) s)"
    unfolding translate_eq_def by metis
  then show ?thesis
    using False translate_eq_trans[OF _ translate_eq_normalize_shape]
    by (simp add: flipH_def Let_def)
qed

lemma rotate90CW_step: "translate_eq s t \<Longrightarrow> translate_eq (map quarterTurn s) (rotate90CW t)"
  using translate_eq_map[of s t quarterTurn] quarterTurn_shift rotate90CW_translate_eq translate_eq_trans
  by blast

lemma flipH_step: "translate_eq s t \<Longrightarrow> translate_eq (map mirror s) (flipH t)"
  using translate_eq_map[of s t mirror] mirror_shift flipH_translate_eq translate_eq_trans
  by blast

lemma normalize_shape_idem: "normalize_shape (normalize_shape s) = normalize_shape s"
  using normalize_shape_translate_eq[OF translate_eq_normalize_shape] .

lemma normalize_shape_Nil: "normalize_shape [] = []"
  by (simp add: normalize_shape_def)

lemma rotate90CW_normal: "normalize_shape (rotate90CW s) = rotate90CW s"
proof (cases "s = []")
  case True
  then show ?thesis by (simp add: rotate90CW_def normalize_shape_Nil)
next
  case False
  then show ?thesis by (simp only: rotate90CW_def Let_def normalize_shape_idem if_False)
qed

lemma flipH_normal: "normalize_shape (flipH s) = flipH s"
proof (cases "s = []")
  case True
  then show ?thesis by (simp add: flipH_def normalize_shape_Nil)
next
  case False
  then show ?thesis by (simp only: flipH_def Let_def normalize_shape_idem if_False)
qed

text \<open>
  Claim C8. For every shape, four applications of the clockwise quarter turn give the
  normalized original shape, and two applications of the horizontal reflection give the
  normalized original shape.
\<close>

theorem rotate_flip_round_trip:
  "rotate90CW (rotate90CW (rotate90CW (rotate90CW s))) = normalize_shape s \<and>
   flipH (flipH s) = normalize_shape s"
proof
  have "translate_eq (map quarterTurn (map quarterTurn (map quarterTurn (map quarterTurn s))))
          (rotate90CW (rotate90CW (rotate90CW (rotate90CW s))))"
    by (intro rotate90CW_step translate_eq_refl)
  moreover have "map quarterTurn (map quarterTurn (map quarterTurn (map quarterTurn s))) = s"
    by (simp add: quarterTurn_def comp_def split_def)
  ultimately have "normalize_shape (rotate90CW (rotate90CW (rotate90CW (rotate90CW s))))
      = normalize_shape s"
    by (simp add: normalize_shape_translate_eq)
  then show "rotate90CW (rotate90CW (rotate90CW (rotate90CW s))) = normalize_shape s"
    by (simp add: rotate90CW_normal)
  have "translate_eq (map mirror (map mirror s)) (flipH (flipH s))"
    by (intro flipH_step translate_eq_refl)
  moreover have "map mirror (map mirror s) = s"
    by (simp add: mirror_def comp_def split_def)
  ultimately have "normalize_shape (flipH (flipH s)) = normalize_shape s"
    by (simp add: normalize_shape_translate_eq)
  then show "flipH (flipH s) = normalize_shape s"
    by (simp add: flipH_normal)
qed


section \<open>The orientation tables of the library\<close>

text \<open>The orientation lists that the module computes once when it is loaded.\<close>

definition orientationTable :: "(string \<times> shape list) list" where
  "orientationTable = [
     (''A'',
      [[(0, 0), (1, 0), (2, 0), (2, 1)],
       [(1, 0), (1, 1), (0, 2), (1, 2)],
       [(0, 0), (0, 1), (1, 1), (2, 1)],
       [(0, 0), (1, 0), (0, 1), (0, 2)],
       [(0, 0), (1, 0), (2, 0), (0, 1)],
       [(0, 0), (1, 0), (1, 1), (1, 2)],
       [(2, 0), (0, 1), (1, 1), (2, 1)],
       [(0, 0), (0, 1), (0, 2), (1, 2)]]),
     (''B'',
      [[(0, 0), (1, 0), (1, 1), (2, 1), (2, 2)],
       [(2, 0), (1, 1), (2, 1), (0, 2), (1, 2)],
       [(0, 0), (0, 1), (1, 1), (1, 2), (2, 2)],
       [(1, 0), (2, 0), (0, 1), (1, 1), (0, 2)]]),
     (''C'',
      [[(0, 0), (1, 0), (2, 0), (1, 1)],
       [(1, 0), (0, 1), (1, 1), (1, 2)],
       [(1, 0), (0, 1), (1, 1), (2, 1)],
       [(0, 0), (0, 1), (1, 1), (0, 2)]]),
     (''D'',
      [[(0, 0), (1, 0), (2, 0), (3, 0), (3, 1)],
       [(1, 0), (1, 1), (1, 2), (0, 3), (1, 3)],
       [(0, 0), (0, 1), (1, 1), (2, 1), (3, 1)],
       [(0, 0), (1, 0), (0, 1), (0, 2), (0, 3)],
       [(0, 0), (1, 0), (2, 0), (3, 0), (0, 1)],
       [(0, 0), (1, 0), (1, 1), (1, 2), (1, 3)],
       [(3, 0), (0, 1), (1, 1), (2, 1), (3, 1)],
       [(0, 0), (0, 1), (0, 2), (0, 3), (1, 3)]]),
     (''E'',
      [[(0, 0), (1, 0), (1, 1), (2, 1), (3, 1)],
       [(1, 0), (0, 1), (1, 1), (0, 2), (0, 3)],
       [(0, 0), (1, 0), (2, 0), (2, 1), (3, 1)],
       [(1, 0), (1, 1), (0, 2), (1, 2), (0, 3)],
       [(2, 0), (3, 0), (0, 1), (1, 1), (2, 1)],
       [(0, 0), (0, 1), (0, 2), (1, 2), (1, 3)],
       [(1, 0), (2, 0), (3, 0), (0, 1), (1, 1)],
       [(0, 0), (0, 1), (1, 1), (1, 2), (1, 3)]]),
     (''F'',
      [[(0, 0), (1, 0), (2, 0), (3, 0), (1, 1)],
       [(1, 0), (0, 1), (1, 1), (1, 2), (1, 3)],
       [(2, 0), (0, 1), (1, 1), (2, 1), (3, 1)],
       [(0, 0), (0, 1), (0, 2), (1, 2), (0, 3)],
       [(0, 0), (1, 0), (2, 0), (3, 0), (2, 1)],
       [(1, 0), (1, 1), (0, 2), (1, 2), (1, 3)],
       [(1, 0), (0, 1), (1, 1), (2, 1), (3, 1)],
       [(0, 0), (0, 1), (1, 1), (0, 2), (0, 3)]]),
     (''G'',
      [[(0, 0), (0, 1), (1, 1), (2, 1), (3, 1)],
       [(0, 0), (1, 0), (0, 1), (0, 2), (0, 3)],
       [(0, 0), (1, 0), (2, 0), (3, 0), (3, 1)],
       [(1, 0), (1, 1), (1, 2), (0, 3), (1, 3)],
       [(3, 0), (0, 1), (1, 1), (2, 1), (3, 1)],
       [(0, 0), (0, 1), (0, 2), (0, 3), (1, 3)],
       [(0, 0), (1, 0), (2, 0), (3, 0), (0, 1)],
       [(0, 0), (1, 0), (1, 1), (1, 2), (1, 3)]]),
     (''H'',
      [[(0, 0), (1, 0), (2, 0), (3, 0), (0, 1)],
       [(0, 0), (1, 0), (1, 1), (1, 2), (1, 3)],
       [(3, 0), (0, 1), (1, 1), (2, 1), (3, 1)],
       [(0, 0), (0, 1), (0, 2), (0, 3), (1, 3)],
       [(0, 0), (1, 0), (2, 0), (3, 0), (3, 1)],
       [(1, 0), (1, 1), (1, 2), (0, 3), (1, 3)],
       [(0, 0), (0, 1), (1, 1), (2, 1), (3, 1)],
       [(0, 0), (1, 0), (0, 1), (0, 2), (0, 3)]]),
     (''I'',
      [[(0, 0), (1, 0), (2, 0), (0, 1), (2, 1)],
       [(0, 0), (1, 0), (1, 1), (0, 2), (1, 2)],
       [(0, 0), (2, 0), (0, 1), (1, 1), (2, 1)],
       [(0, 0), (1, 0), (0, 1), (0, 2), (1, 2)]]),
     (''J'',
      [[(0, 0), (0, 1), (1, 1), (1, 2), (2, 2)],
       [(1, 0), (2, 0), (0, 1), (1, 1), (0, 2)],
       [(0, 0), (1, 0), (1, 1), (2, 1), (2, 2)],
       [(2, 0), (1, 1), (2, 1), (0, 2), (1, 2)]]),
     (''K'',
      [[(0, 0), (1, 0), (0, 1), (1, 1)]]),
     (''L'',
      [[(0, 0), (1, 0), (2, 0)],
       [(0, 0), (0, 1), (0, 2)]])]"

lemma orientations_A:
  "getAllOrientations [(0, 0), (1, 0), (2, 0), (2, 1)] =
     [[(0, 0), (1, 0), (2, 0), (2, 1)],
      [(1, 0), (1, 1), (0, 2), (1, 2)],
      [(0, 0), (0, 1), (1, 1), (2, 1)],
      [(0, 0), (1, 0), (0, 1), (0, 2)],
      [(0, 0), (1, 0), (2, 0), (0, 1)],
      [(0, 0), (1, 0), (1, 1), (1, 2)],
      [(2, 0), (0, 1), (1, 1), (2, 1)],
      [(0, 0), (0, 1), (0, 2), (1, 2)]]"
  by code_simp

lemma orientations_B:
  "getAllOrientations [(0, 0), (1, 0), (1, 1), (2, 1), (2, 2)] =
     [[(0, 0), (1, 0), (1, 1), (2, 1), (2, 2)],
      [(2, 0), (1, 1), (2, 1), (0, 2), (1, 2)],
      [(0, 0), (0, 1), (1, 1), (1, 2), (2, 2)],
      [(1, 0), (2, 0), (0, 1), (1, 1), (0, 2)]]"
  by code_simp

lemma orientations_C:
  "getAllOrientations [(0, 0), (1, 0), (2, 0), (1, 1)] =
     [[(0, 0), (1, 0), (2, 0), (1, 1)],
      [(1, 0), (0, 1), (1, 1), (1, 2)],
      [(1, 0), (0, 1), (1, 1), (2, 1)],
      [(0, 0), (0, 1), (1, 1), (0, 2)]]"
  by code_simp

lemma orientations_D:
  "getAllOrientations [(0, 0), (1, 0), (2, 0), (3, 0), (3, 1)] =
     [[(0, 0), (1, 0), (2, 0), (3, 0), (3, 1)],
      [(1, 0), (1, 1), (1, 2), (0, 3), (1, 3)],
      [(0, 0), (0, 1), (1, 1), (2, 1), (3, 1)],
      [(0, 0), (1, 0), (0, 1), (0, 2), (0, 3)],
      [(0, 0), (1, 0), (2, 0), (3, 0), (0, 1)],
      [(0, 0), (1, 0), (1, 1), (1, 2), (1, 3)],
      [(3, 0), (0, 1), (1, 1), (2, 1), (3, 1)],
      [(0, 0), (0, 1), (0, 2), (0, 3), (1, 3)]]"
  by code_simp

lemma orientations_E:
  "getAllOrientations [(0, 0), (1, 0), (1, 1), (2, 1), (3, 1)] =
     [[(0, 0), (1, 0), (1, 1), (2, 1), (3, 1)],
      [(1, 0), (0, 1), (1, 1), (0, 2), (0, 3)],
      [(0, 0), (1, 0), (2, 0), (2, 1), (3, 1)],
      [(1, 0), (1, 1), (0, 2), (1, 2), (0, 3)],
      [(2, 0), (3, 0), (0, 1), (1, 1), (2, 1)],
      [(0, 0), (0, 1), (0, 2), (1, 2), (1, 3)],
      [(1, 0), (2, 0), (3, 0), (0, 1), (1, 1)],
      [(0, 0), (0, 1), (1, 1), (1, 2), (1, 3)]]"
  by code_simp

lemma orientations_F:
  "getAllOrientations [(0, 0), (1, 0), (2, 0), (3, 0), (1, 1)] =
     [[(0, 0), (1, 0), (2, 0), (3, 0), (1, 1)],
      [(1, 0), (0, 1), (1, 1), (1, 2), (1, 3)],
      [(2, 0), (0, 1), (1, 1), (2, 1), (3, 1)],
      [(0, 0), (0, 1), (0, 2), (1, 2), (0, 3)],
      [(0, 0), (1, 0), (2, 0), (3, 0), (2, 1)],
      [(1, 0), (1, 1), (0, 2), (1, 2), (1, 3)],
      [(1, 0), (0, 1), (1, 1), (2, 1), (3, 1)],
      [(0, 0), (0, 1), (1, 1), (0, 2), (0, 3)]]"
  by code_simp

lemma orientations_G:
  "getAllOrientations [(0, 0), (0, 1), (1, 1), (2, 1), (3, 1)] =
     [[(0, 0), (0, 1), (1, 1), (2, 1), (3, 1)],
      [(0, 0), (1, 0), (0, 1), (0, 2), (0, 3)],
      [(0, 0), (1, 0), (2, 0), (3, 0), (3, 1)],
      [(1, 0), (1, 1), (1, 2), (0, 3), (1, 3)],
      [(3, 0), (0, 1), (1, 1), (2, 1), (3, 1)],
      [(0, 0), (0, 1), (0, 2), (0, 3), (1, 3)],
      [(0, 0), (1, 0), (2, 0), (3, 0), (0, 1)],
      [(0, 0), (1, 0), (1, 1), (1, 2), (1, 3)]]"
  by code_simp

lemma orientations_H:
  "getAllOrientations [(0, 0), (1, 0), (2, 0), (3, 0), (0, 1)] =
     [[(0, 0), (1, 0), (2, 0), (3, 0), (0, 1)],
      [(0, 0), (1, 0), (1, 1), (1, 2), (1, 3)],
      [(3, 0), (0, 1), (1, 1), (2, 1), (3, 1)],
      [(0, 0), (0, 1), (0, 2), (0, 3), (1, 3)],
      [(0, 0), (1, 0), (2, 0), (3, 0), (3, 1)],
      [(1, 0), (1, 1), (1, 2), (0, 3), (1, 3)],
      [(0, 0), (0, 1), (1, 1), (2, 1), (3, 1)],
      [(0, 0), (1, 0), (0, 1), (0, 2), (0, 3)]]"
  by code_simp

lemma orientations_I:
  "getAllOrientations [(0, 0), (1, 0), (2, 0), (0, 1), (2, 1)] =
     [[(0, 0), (1, 0), (2, 0), (0, 1), (2, 1)],
      [(0, 0), (1, 0), (1, 1), (0, 2), (1, 2)],
      [(0, 0), (2, 0), (0, 1), (1, 1), (2, 1)],
      [(0, 0), (1, 0), (0, 1), (0, 2), (1, 2)]]"
  by code_simp

lemma orientations_J:
  "getAllOrientations [(0, 0), (0, 1), (1, 1), (1, 2), (2, 2)] =
     [[(0, 0), (0, 1), (1, 1), (1, 2), (2, 2)],
      [(1, 0), (2, 0), (0, 1), (1, 1), (0, 2)],
      [(0, 0), (1, 0), (1, 1), (2, 1), (2, 2)],
      [(2, 0), (1, 1), (2, 1), (0, 2), (1, 2)]]"
  by code_simp

lemma orientations_K:
  "getAllOrientations [(0, 0), (1, 0), (0, 1), (1, 1)] =
     [[(0, 0), (1, 0), (0, 1), (1, 1)]]"
  by code_simp

lemma orientations_L:
  "getAllOrientations [(0, 0), (1, 0), (2, 0)] =
     [[(0, 0), (1, 0), (2, 0)],
      [(0, 0), (0, 1), (0, 2)]]"
  by code_simp

lemma orientation_table:
  "map (\<lambda>p. (pid p, getAllOrientations (pshape p))) PIECES = orientationTable"
  unfolding PIECES_def orientationTable_def
  by (simp only: list.map piece.simps orientations_A orientations_B orientations_C orientations_D orientations_E orientations_F orientations_G orientations_H orientations_I orientations_J orientations_K orientations_L)

lemma ORIENTATIONS_table: "ORIENTATIONS = map_of orientationTable"
  by (simp only: ORIENTATIONS_def orientation_table)

definition wellFormedOrientations :: "shape list \<Rightarrow> bool" where
  "wellFormedOrientations os \<longleftrightarrow>
     1 \<le> length os \<and> length os \<le> 8 \<and>
     list_all (\<lambda>s. s \<noteq> [] \<and> Min (set (map fst s)) = 0 \<and> Min (set (map snd s)) = 0 \<and>
                  sorted (map rowMajor s) \<and> distinct s) os \<and>
     distinct os"

lemma orientationTable_ok: "list_all (\<lambda>(i, os). wellFormedOrientations os) orientationTable"
  by code_simp

text \<open>
  Claim C7. For every piece of the library the orientation generator yields between 1 and
  8 shapes; each has minimum column 0 and minimum row 0 and lists its cells in row-major
  order; and no shape occurs twice in the list.
\<close>

theorem orientations_normalized_distinct:
  assumes "p \<in> set PIECES"
  shows "wellFormedOrientations (getAllOrientations (pshape p))"
proof -
  from assms have "(pid p, getAllOrientations (pshape p)) \<in> set orientationTable"
    unfolding orientation_table[symmetric] by force
  with orientationTable_ok show ?thesis
    unfolding list_all_iff by fastforce
qed

theorem orientations_normalized_distinct_witness:
  "\<lparr>pid = ''L'', pshape = [(0,0), (1,0), (2,0)]\<rparr> \<in> set PIECES \<and>
   wellFormedOrientations (getAllOrientations [(0,0), (1,0), (2,0)])"
  using orientations_normalized_distinct[of "\<lparr>pid = ''L'', pshape = [(0,0), (1,0), (2,0)]\<rparr>"]
  by (simp add: PIECES_def)


section \<open>Properties of the board primitives\<close>

subsection \<open>Cells of the grid and of a placement\<close>

definition cellsAt :: "shape \<Rightarrow> int \<Rightarrow> int \<Rightarrow> (int \<times> int) list" where
  "cellsAt shape col row = map (\<lambda>(dc, dr). (col + dc, row + dr)) shape"

definition empties :: "store \<Rightarrow> board \<Rightarrow> (int \<times> int) set" where
  "empties h b = {(c, r). (c, r) \<in> grid \<and> isNull h b r c}"

definition writeCells :: "store \<Rightarrow> board \<Rightarrow> (int \<times> int) list \<Rightarrow> cell \<Rightarrow> store" where
  "writeCells h b cells v = fold (\<lambda>(c, r) h'. setCell h' b r c v) cells h"

lemma grid_iff: "(c, r) \<in> grid \<longleftrightarrow> 0 \<le> r \<and> r < ROWS \<and> 0 \<le> c \<and> c < COLS"
  by (auto simp: grid_def)

lemma set_scanOrder: "set scanOrder = grid"
  by (auto simp: scanOrder_def grid_def)

lemma finite_empties: "finite (empties h b)"
  by (rule finite_subset[OF _ finite_grid]) (auto simp: empties_def)

lemma empties_grid: "empties h b \<subseteq> grid"
  by (auto simp: empties_def)

lemma placePiece_writeCells:
  "placePiece h b pieceId shape col row = writeCells h b (cellsAt shape col row) (Some pieceId)"
  by (simp add: placePiece_def writeCells_def cellsAt_def fold_map comp_def split_def add.commute)

lemma removePiece_writeCells:
  "removePiece h b pieceId shape col row = writeCells h b (cellsAt shape col row) None"
  by (simp add: removePiece_def writeCells_def cellsAt_def fold_map comp_def split_def add.commute)

lemma canPlace_iff: "canPlace h b shape col row \<longleftrightarrow> set (cellsAt shape col row) \<subseteq> empties h b"
  by (auto simp: canPlace_def list_all_iff cellsAt_def empties_def grid_iff Let_def)

subsection \<open>Reading and writing a well-formed board\<close>

lemma wf_board_row:
  assumes "wf_board h b" "(c, r) \<in> grid"
  shows "nat r < length b" "b ! nat r < length h" "nat c < length (h ! (b ! nat r))"
proof -
  from assms show 1: "nat r < length b" by (auto simp: wf_board_def grid_iff)
  from assms 1 have "b ! nat r \<in> set b" by simp
  with assms(1) have 2: "b ! nat r < length h \<and> int (length (h ! (b ! nat r))) = COLS"
    by (auto simp: wf_board_def list_all_iff)
  then show "b ! nat r < length h" by simp
  from 2 assms(2) show "nat c < length (h ! (b ! nat r))" by (auto simp: grid_iff)
qed

lemma getCell_wf:
  assumes "wf_board h b" "(c, r) \<in> grid"
  shows "getCell h b r c = Some (h ! (b ! nat r) ! nat c)"
  using wf_board_row[OF assms] assms(2) by (simp add: getCell_def grid_iff)

lemma setCell_wf:
  assumes "wf_board h b" "(c, r) \<in> grid"
  shows "setCell h b r c v = h[b ! nat r := (h ! (b ! nat r))[nat c := v]]"
  using wf_board_row[OF assms] assms(2) by (simp add: setCell_def grid_iff)

lemma length_setCell: "length (setCell h b r c v) = length h"
  by (simp add: setCell_def)

lemma length_row_setCell: "length (setCell h b r c v ! a) = length (h ! a)"
  by (cases "a = b ! nat r") (auto simp: setCell_def nth_list_update)

lemma wf_board_setCell: "wf_board h b \<Longrightarrow> wf_board (setCell h b r c v) b"
  by (simp add: wf_board_def length_setCell length_row_setCell)

lemma setCell_frame: "a \<notin> set b \<Longrightarrow> setCell h b r c v ! a = h ! a"
  by (auto simp: setCell_def nth_list_update)

lemma length_writeCells: "length (writeCells h b cells v) = length h"
  unfolding writeCells_def
  by (induction cells arbitrary: h) (auto simp: length_setCell)

lemma wf_board_writeCells: "wf_board h b \<Longrightarrow> wf_board (writeCells h b cells v) b"
  unfolding writeCells_def
  by (induction cells arbitrary: h) (auto simp: wf_board_setCell)

lemma writeCells_frame: "a \<notin> set b \<Longrightarrow> writeCells h b cells v ! a = h ! a"
  unfolding writeCells_def
  by (induction cells arbitrary: h) (auto simp: setCell_frame)

lemma length_row_writeCells: "length (writeCells h b cells v ! a) = length (h ! a)"
  unfolding writeCells_def
  by (induction cells arbitrary: h) (auto simp: length_row_setCell)

text \<open>The value of every stored cell after a run of writes.\<close>

lemma writeCells_nth:
  assumes "wf_board h b" "set cells \<subseteq> grid" "a < length h" "k < length (h ! a)"
  shows "writeCells h b cells v ! a ! k =
     (if \<exists>(c, r) \<in> set cells. b ! nat r = a \<and> nat c = k then v else h ! a ! k)"
  using assms
proof (induction cells arbitrary: h)
  case Nil
  then show ?case by (simp add: writeCells_def)
next
  case (Cons x cells)
  obtain c r where x: "x = (c, r)" by (cases x)
  let ?h1 = "setCell h b r c v"
  have xin: "(c, r) \<in> grid" using Cons.prems x by simp
  have wf1: "wf_board ?h1 b" using Cons.prems by (simp add: wf_board_setCell)
  have step: "writeCells h b (x # cells) v = writeCells ?h1 b cells v"
    by (simp add: writeCells_def x)
  have IH: "writeCells ?h1 b cells v ! a ! k =
     (if \<exists>(c, r) \<in> set cells. b ! nat r = a \<and> nat c = k then v else ?h1 ! a ! k)"
    using Cons.prems wf1 by (intro Cons.IH) (auto simp: length_setCell length_row_setCell)
  have h1: "?h1 ! a ! k = (if b ! nat r = a \<and> nat c = k then v else h ! a ! k)"
    using Cons.prems wf_board_row[OF Cons.prems(1) xin]
    by (auto simp: setCell_wf[OF Cons.prems(1) xin] nth_list_update)
  show ?case unfolding step IH h1 by (auto simp: x)
qed

lemma store_eqI:
  assumes "length h' = length h"
    and "\<And>a. a < length h \<Longrightarrow> length (h' ! a) = length (h ! a)"
    and "\<And>a k. a < length h \<Longrightarrow> k < length (h ! a) \<Longrightarrow> h' ! a ! k = h ! a ! k"
  shows "h' = (h :: store)"
  using assms by (auto intro!: nth_equalityI)

lemma isNull_wf:
  assumes "wf_board h b" "(c, r) \<in> grid"
  shows "isNull h b r c \<longleftrightarrow> h ! (b ! nat r) ! nat c = None"
  by (simp add: isNull_def getCell_wf[OF assms])

lemma grid_cell_inj:
  assumes "wf_board h b" "(c, r) \<in> grid" "(c', r') \<in> grid"
  shows "b ! nat r' = b ! nat r \<and> nat c' = nat c \<longleftrightarrow> (c', r') = (c, r)"
proof -
  have "distinct b" using assms by (simp add: wf_board_def)
  moreover have "nat r < length b" "nat r' < length b"
    using wf_board_row(1)[OF assms(1)] assms by auto
  ultimately have "b ! nat r' = b ! nat r \<longleftrightarrow> nat r' = nat r"
    by (simp add: nth_eq_iff_index_eq)
  then show ?thesis using assms(2,3) by (auto simp: grid_iff)
qed

lemma isNull_writeCells:
  assumes "wf_board h b" "set cells \<subseteq> grid" "(c, r) \<in> grid"
  shows "isNull (writeCells h b cells v) b r c \<longleftrightarrow>
     (if (c, r) \<in> set cells then v = None else isNull h b r c)"
proof -
  have wf': "wf_board (writeCells h b cells v) b" using assms(1) by (rule wf_board_writeCells)
  note rows = wf_board_row[OF assms(1,3)]
  have "(\<exists>(c', r') \<in> set cells. b ! nat r' = b ! nat r \<and> nat c' = nat c) \<longleftrightarrow> (c, r) \<in> set cells"
    using grid_cell_inj[OF assms(1,3)] assms(2) by fastforce
  then show ?thesis
    unfolding isNull_wf[OF wf' assms(3)] isNull_wf[OF assms(1,3)]
      writeCells_nth[OF assms(1,2) rows(2,3)]
    by auto
qed

lemma empties_writeCells_Some:
  assumes "wf_board h b" "set cells \<subseteq> grid"
  shows "empties (writeCells h b cells (Some p)) b = empties h b - set cells"
  using isNull_writeCells[OF assms] by (auto simp: empties_def split: if_splits)

lemma empties_writeCells_None:
  assumes "wf_board h b" "set cells \<subseteq> grid"
  shows "empties (writeCells h b cells None) b = empties h b \<union> set cells"
  using isNull_writeCells[OF assms] assms(2) by (auto simp: empties_def split: if_splits)

text \<open>Writing a piece over empty cells and clearing the same cells gives back the store.\<close>

lemma write_then_clear:
  assumes wf: "wf_board h b" and sub: "set cells \<subseteq> empties h b"
  shows "writeCells (writeCells h b cells (Some p)) b cells None = h"
proof (rule store_eqI)
  let ?h1 = "writeCells h b cells (Some p)"
  have g: "set cells \<subseteq> grid" using sub empties_grid by blast
  have wf1: "wf_board ?h1 b" using wf by (rule wf_board_writeCells)
  show "length (writeCells ?h1 b cells None) = length h" by (simp add: length_writeCells)
  show "length (writeCells ?h1 b cells None ! a) = length (h ! a)" for a
    by (simp add: length_row_writeCells)
  fix a k assume ak: "a < length h" "k < length (h ! a)"
  have 1: "writeCells ?h1 b cells None ! a ! k =
      (if \<exists>(c, r) \<in> set cells. b ! nat r = a \<and> nat c = k then None else ?h1 ! a ! k)"
    using ak by (intro writeCells_nth[OF wf1 g]) (simp_all add: length_writeCells length_row_writeCells)
  have 2: "?h1 ! a ! k =
      (if \<exists>(c, r) \<in> set cells. b ! nat r = a \<and> nat c = k then Some p else h ! a ! k)"
    using ak by (intro writeCells_nth[OF wf g])
  show "writeCells ?h1 b cells None ! a ! k = h ! a ! k"
  proof (cases "\<exists>(c, r) \<in> set cells. b ! nat r = a \<and> nat c = k")
    case True
    then obtain c r where cr: "(c, r) \<in> set cells" "b ! nat r = a" "nat c = k" by auto
    then have "(c, r) \<in> grid" "isNull h b r c" using sub by (auto simp: empties_def)
    then have "h ! a ! k = None" using isNull_wf[OF wf] cr by auto
    with True 1 show ?thesis by simp
  next
    case False
    with 1 2 show ?thesis by simp
  qed
qed

lemma place_then_remove:
  assumes "wf_board h b" "canPlace h b shape col row"
  shows "removePiece (placePiece h b pieceId shape col row) b pieceId shape col row = h"
  using assms write_then_clear
  by (simp add: placePiece_writeCells removePiece_writeCells canPlace_iff)

section \<open>Properties of the search\<close>

subsection \<open>Identifier sets and known pieces\<close>

definition known :: "string list \<Rightarrow> bool" where
  "known ids \<longleftrightarrow> set ids \<subseteq> set (map pid PIECES)"

lemma set_setAdd: "set (setAdd x xs) = insert x (set xs)"
  by (auto simp: setAdd_def)

lemma set_setDelete: "set (setDelete x xs) = set xs - {x}"
  by (auto simp: setDelete_def)

lemma set_setOf: "set (setOf xs) = set xs"
proof -
  have "set (fold setAdd xs acc) = set xs \<union> set acc" for acc
    by (induction xs arbitrary: acc) (auto simp: set_setAdd)
  then show ?thesis by (simp add: setOf_def)
qed

lemma ORIENTATIONS_None: "ORIENTATIONS i = None \<longleftrightarrow> i \<notin> set (map pid PIECES)"
  by (simp add: ORIENTATIONS_def map_of_eq_None_iff comp_def image_image)

lemma PIECE_MAP_None: "PIECE_MAP i = None \<longleftrightarrow> i \<notin> set (map pid PIECES)"
  by (simp add: PIECE_MAP_def map_of_eq_None_iff comp_def image_image)

lemma minLoop_result:
  "minLoop ids acc \<noteq> OutOfFuel \<and> (known ids \<longrightarrow> minLoop ids acc \<noteq> TypeError)"
proof (induction ids arbitrary: acc)
  case Nil
  then show ?case by simp
next
  case (Cons i ids)
  show ?case
  proof (cases "PIECE_MAP i")
    case None
    then have "i \<notin> set (map pid PIECES)" by (simp add: PIECE_MAP_None)
    with None show ?thesis by (simp add: known_def)
  next
    case (Some pc)
    then show ?thesis using Cons.IH by (simp add: known_def Let_def)
  qed
qed

lemma newMinSize_result:
  "newMinSize ids \<noteq> OutOfFuel \<and> (known ids \<longrightarrow> newMinSize ids \<noteq> TypeError)"
  using minLoop_result[of ids None]
  by (auto simp: newMinSize_def split: outcome.splits option.splits)

lemma known_setDelete: "known ids \<Longrightarrow> known (setDelete x ids)"
  by (auto simp: known_def set_setDelete)

lemma orientation_distinct_cells:
  assumes "ORIENTATIONS i = Some os" "s \<in> set os"
  shows "distinct s"
proof -
  from assms(1) have "(i, os) \<in> set orientationTable"
    unfolding ORIENTATIONS_table by (rule map_of_SomeD)
  with orientationTable_ok have "wellFormedOrientations os"
    unfolding list_all_iff by fastforce
  with assms(2) show ?thesis
    by (auto simp: wellFormedOrientations_def list_all_iff)
qed

subsection \<open>What a call of the search leaves behind\<close>

definition cellsOf :: "placement \<Rightarrow> (int \<times> int) list" where
  "cellsOf p = cellsAt (p_shape p) (p_col p) (p_row p)"

definition validPlacement :: "placement \<Rightarrow> bool" where
  "validPlacement p \<longleftrightarrow>
     (case ORIENTATIONS (p_pieceId p) of
        None \<Rightarrow> False
      | Some os \<Rightarrow> p_orientationIndex p < length os \<and> os ! p_orientationIndex p = p_shape p)"

text \<open>\<open>tiling b h ids ps\<close>: the placements use distinct pieces of \<open>ids\<close>, each in one of
  its orientations, and their cells partition the empty cells of the board.\<close>

definition tiling :: "board \<Rightarrow> store \<Rightarrow> string list \<Rightarrow> placement list \<Rightarrow> bool" where
  "tiling b h ids ps \<longleftrightarrow>
     distinct (map p_pieceId ps) \<and> set (map p_pieceId ps) \<subseteq> set ids \<and>
     list_all validPlacement ps \<and>
     distinct (concat (map cellsOf ps)) \<and>
     set (concat (map cellsOf ps)) = empties h b"

text \<open>\<open>frame b h h'\<close>: only rows of the board \<open>b\<close> differ between the stores.\<close>

definition frame :: "board \<Rightarrow> store \<Rightarrow> store \<Rightarrow> bool" where
  "frame b h h' \<longleftrightarrow>
     length h' = length h \<and> wf_board h' b \<and> (\<forall>a. a \<notin> set b \<longrightarrow> h' ! a = h ! a)"

definition solved :: "board \<Rightarrow> sstate \<Rightarrow> sstate \<Rightarrow> bool" where
  "solved b st st' \<longleftrightarrow>
     (\<exists>ps. st_solution st' = st_solution st @ ps \<and>
           tiling b (st_store st) (st_remaining st) ps) \<and>
     frame b (st_store st) (st_store st')"

definition sim :: "sstate \<Rightarrow> sstate \<Rightarrow> bool" where
  "sim st st' \<longleftrightarrow>
     st_store st' = st_store st \<and> st_solution st' = st_solution st \<and>
     set (st_remaining st') = set (st_remaining st)"

definition post :: "board \<Rightarrow> sstate \<Rightarrow> (bool \<times> sstate) outcome \<Rightarrow> bool" where
  "post b st r \<longleftrightarrow>
     (case r of Return (res, st') \<Rightarrow> if res then solved b st st' else sim st st'
      | _ \<Rightarrow> True)"

definition verdict :: "board \<Rightarrow> sstate \<Rightarrow> nat \<Rightarrow> (bool \<times> sstate) outcome \<Rightarrow> bool" where
  "verdict b st n r \<longleftrightarrow>
     post b st r \<and>
     (card (empties (st_store st) b) \<le> n \<longrightarrow> r \<noteq> OutOfFuel) \<and>
     (known (st_remaining st) \<longrightarrow> r \<noteq> TypeError)"

lemma frame_refl: "wf_board h b \<Longrightarrow> frame b h h"
  by (simp add: frame_def)

lemma frame_trans: "frame b h h1 \<Longrightarrow> frame b h1 h2 \<Longrightarrow> frame b h h2"
  by (simp add: frame_def)

lemma frame_writeCells: "wf_board h b \<Longrightarrow> frame b h (writeCells h b cells v)"
  by (simp add: frame_def length_writeCells wf_board_writeCells writeCells_frame)

lemma sim_refl: "sim st st"
  by (simp add: sim_def)

lemma verdict_sim:
  assumes "sim st st'" "verdict b st' n r"
  shows "verdict b st n r"
  using assms
  by (auto simp: verdict_def post_def sim_def solved_def known_def tiling_def
           split: outcome.splits prod.splits if_splits)

lemma verdict_False: "verdict b st n (Return (False, st))"
  by (simp add: verdict_def post_def sim_refl)

definition continue :: "(bool \<times> sstate) outcome \<Rightarrow> (sstate \<Rightarrow> (bool \<times> sstate) outcome)
    \<Rightarrow> (bool \<times> sstate) outcome" where
  "continue r k = (case r of Return (False, st') \<Rightarrow> k st' | _ \<Rightarrow> r)"

lemma verdict_continue:
  assumes "verdict b st n r"
    and "\<And>st'. r = Return (False, st') \<Longrightarrow> sim st st' \<Longrightarrow> verdict b st' n (k st')"
  shows "verdict b st n (continue r k)"
proof (cases r)
  case (Return x)
  obtain res st' where x: "x = (res, st')" by (cases x)
  show ?thesis
  proof (cases res)
    case True
    then show ?thesis using assms(1) Return x by (simp add: continue_def)
  next
    case False
    then have s: "sim st st'" using assms(1) Return x by (simp add: verdict_def post_def)
    from assms(2)[OF _ s] Return x False have "verdict b st' n (k st')" by simp
    from verdict_sim[OF s this] show ?thesis using Return x False by (simp add: continue_def)
  qed
qed (use assms(1) in \<open>simp_all add: continue_def\<close>)

lemma solvePieces_Cons:
  "solvePieces fuel b target (pieceId # pieceIds) st =
     (case ORIENTATIONS pieceId of None \<Rightarrow> TypeError
      | Some orientations \<Rightarrow>
          continue (solveOrients fuel b target pieceId 0 orientations st)
            (solvePieces fuel b target pieceIds))"
  by (simp add: continue_def split: option.splits outcome.splits prod.splits bool.splits)

lemma solveOrients_Cons:
  "solveOrients fuel b target pieceId oi (shape # shapes) st =
     continue (solveCells fuel b target pieceId oi shape shape st)
       (solveOrients fuel b target pieceId (Suc oi) shapes)"
  by (simp add: continue_def split: option.splits outcome.splits prod.splits bool.splits)

lemma findFirstEmpty_None: "findFirstEmpty h b = None \<longleftrightarrow> empties h b = {}"
  by (auto simp: findFirstEmpty_def find_None_iff set_scanOrder empties_def)

lemma find_Some_mem: "find P xs = Some x \<Longrightarrow> x \<in> set xs \<and> P x"
  by (induction xs) (auto split: if_splits)

lemma findFirstEmpty_Some:
  assumes "findFirstEmpty h b = Some t"
  shows "t \<in> empties h b"
proof -
  obtain c r where t: "t = (c, r)" by (cases t)
  from assms have "t \<in> set scanOrder \<and> (\<lambda>(c, r). isNull h b r c) t"
    unfolding findFirstEmpty_def by (rule find_Some_mem)
  then show ?thesis by (simp add: t empties_def set_scanOrder)
qed

lemma target_in_cellsAt:
  "(dc, dr) \<in> set shape \<Longrightarrow> (tc, tr) \<in> set (cellsAt shape (tc - dc) (tr - dr))"
  by (force simp: cellsAt_def)

lemma card_empties_placePiece:
  assumes wf: "wf_board h b" and cp: "canPlace h b shape col row"
    and t: "t \<in> set (cellsAt shape col row)"
  shows "card (empties (placePiece h b pieceId shape col row) b) < card (empties h b)"
proof -
  have sub: "set (cellsAt shape col row) \<subseteq> empties h b" using cp by (simp add: canPlace_iff)
  then have g: "set (cellsAt shape col row) \<subseteq> grid" using empties_grid by blast
  have "empties (placePiece h b pieceId shape col row) b = empties h b - set (cellsAt shape col row)"
    by (simp add: placePiece_writeCells empties_writeCells_Some[OF wf g])
  moreover have "empties h b - set (cellsAt shape col row) \<subset> empties h b"
    using sub t by auto
  ultimately show ?thesis by (simp add: psubset_card_mono finite_empties)
qed

text \<open>The three ways the body of the innermost loop continues.\<close>

lemma solveCells_skip:
  assumes "\<not> canPlace (st_store st) b shape (fst target - dc) (snd target - dr)"
  shows "solveCells fuel b target pieceId oi shape ((dc, dr) # cells) st =
         solveCells fuel b target pieceId oi shape cells st"
  using assms by (simp add: Let_def)

lemma solveCells_throw:
  assumes "canPlace (st_store st) b shape (fst target - dc) (snd target - dr)"
    and "newMinSize (setDelete pieceId (st_remaining st)) = TypeError"
  shows "solveCells fuel b target pieceId oi shape ((dc, dr) # cells) st = TypeError"
  using assms by (simp add: Let_def)

lemma solveCells_pruned:
  assumes "canPlace (st_store st) b shape (fst target - dc) (snd target - dr)"
    and "newMinSize (setDelete pieceId (st_remaining st)) = Return newMin"
    and "hasDeadIslands
           (placePiece (st_store st) b pieceId shape (fst target - dc) (snd target - dr)) b newMin"
  shows "solveCells fuel b target pieceId oi shape ((dc, dr) # cells) st =
         solveCells fuel b target pieceId oi shape cells
           (st\<lparr>st_remaining := setAdd pieceId (setDelete pieceId (st_remaining st)),
               st_store := removePiece
                  (placePiece (st_store st) b pieceId shape (fst target - dc) (snd target - dr))
                  b pieceId shape (fst target - dc) (snd target - dr)\<rparr>)"
  using assms by (simp add: Let_def)

lemma solveCells_recurse:
  assumes "canPlace (st_store st) b shape (fst target - dc) (snd target - dr)"
    and "newMinSize (setDelete pieceId (st_remaining st)) = Return newMin"
    and "\<not> hasDeadIslands
           (placePiece (st_store st) b pieceId shape (fst target - dc) (snd target - dr)) b newMin"
  shows "solveCells fuel b target pieceId oi shape ((dc, dr) # cells) st =
         continue
           (solve' fuel b newMin
              (st\<lparr>st_store := placePiece (st_store st) b pieceId shape
                                (fst target - dc) (snd target - dr),
                  st_remaining := setDelete pieceId (st_remaining st),
                  st_solution := st_solution st @
                    [\<lparr>p_pieceId = pieceId, p_shape = shape, p_col = fst target - dc,
                      p_row = snd target - dr, p_orientationIndex = oi\<rparr>]\<rparr>))
           (\<lambda>st2. solveCells fuel b target pieceId oi shape cells
              (st2\<lparr>st_solution := butlast (st_solution st2),
                   st_remaining := setAdd pieceId (st_remaining st2),
                   st_store := removePiece (st_store st2) b pieceId shape
                                 (fst target - dc) (snd target - dr)\<rparr>))"
  using assms
  by (simp add: Let_def continue_def split: outcome.splits prod.splits bool.splits)

text \<open>Extending a tiling of the board after a placement by that placement.\<close>

lemma tiling_Cons:
  assumes wf: "wf_board h b"
    and cp: "canPlace h b (p_shape p) (p_col p) (p_row p)"
    and valid: "validPlacement p"
    and mem: "p_pieceId p \<in> set ids"
    and rest: "tiling b (placePiece h b (p_pieceId p) (p_shape p) (p_col p) (p_row p))
                 (setDelete (p_pieceId p) ids) ps"
  shows "tiling b h ids (p # ps)"
proof -
  let ?cs = "cellsAt (p_shape p) (p_col p) (p_row p)"
  have sub: "set ?cs \<subseteq> empties h b" using cp by (simp add: canPlace_iff)
  then have g: "set ?cs \<subseteq> grid" using empties_grid by blast
  have e1: "empties (placePiece h b (p_pieceId p) (p_shape p) (p_col p) (p_row p)) b
        = empties h b - set ?cs"
    by (simp add: placePiece_writeCells empties_writeCells_Some[OF wf g])
  from valid obtain os where os: "ORIENTATIONS (p_pieceId p) = Some os"
    "p_orientationIndex p < length os" "os ! p_orientationIndex p = p_shape p"
    by (auto simp: validPlacement_def split: option.splits)
  then have "p_shape p \<in> set os" by (metis nth_mem)
  then have "distinct (p_shape p)" using os(1) by (rule orientation_distinct_cells[rotated])
  then have d: "distinct ?cs"
    by (auto simp: cellsAt_def distinct_map inj_on_def)
  from rest have r: "distinct (map p_pieceId ps)"
    "set (map p_pieceId ps) \<subseteq> set ids - {p_pieceId p}"
    "list_all validPlacement ps" "distinct (concat (map cellsOf ps))"
    "set (concat (map cellsOf ps)) = empties h b - set ?cs"
    by (simp_all add: tiling_def set_setDelete e1)
  show ?thesis
    unfolding tiling_def
    using r d sub valid mem by (auto simp: cellsOf_def)
qed

lemma solveCells_verdict:
  assumes H: "\<And>m st. wf_board (st_store st) b \<Longrightarrow>
      post b st (solve' fuel b m st) \<and>
      (card (empties (st_store st) b) < fuel \<longrightarrow> solve' fuel b m st \<noteq> OutOfFuel) \<and>
      (known (st_remaining st) \<longrightarrow> solve' fuel b m st \<noteq> TypeError)"
    and wf: "wf_board (st_store st) b"
    and mem: "pieceId \<in> set (st_remaining st)"
    and os: "ORIENTATIONS pieceId = Some os" "oi < length os" "os ! oi = shape"
    and sub: "set cells \<subseteq> set shape"
  shows "verdict b st fuel (solveCells fuel b target pieceId oi shape cells st)"
  using wf mem sub
proof (induction cells arbitrary: st)
  case Nil
  show ?case by (simp add: verdict_False)
next
  case (Cons x cells)
  obtain dc dr where x: "x = (dc, dr)" by (cases x)
  obtain tc tr where target: "target = (tc, tr)" by (cases target)
  let ?col = "fst target - dc" and ?row = "snd target - dr"
  let ?h = "st_store st"
  let ?h1 = "placePiece ?h b pieceId shape ?col ?row"
  note wf = Cons.prems(1)
  have sub': "set cells \<subseteq> set shape" using Cons.prems(3) by simp
  have xin: "(dc, dr) \<in> set shape" using Cons.prems(3) x by simp
  show ?case
  proof (cases "canPlace ?h b shape ?col ?row")
    case False
    then show ?thesis
      unfolding x solveCells_skip[OF False]
      using Cons.IH[OF Cons.prems(1,2) sub'] by simp
  next
    case cp: True
    have wf1: "wf_board ?h1 b"
      using wf by (simp add: placePiece_writeCells wf_board_writeCells)
    have restore: "removePiece ?h1 b pieceId shape ?col ?row = ?h"
      using wf cp by (rule place_then_remove)
    have less: "card (empties ?h1 b) < card (empties ?h b)"
      using wf cp target_in_cellsAt[OF xin, of tc tr]
      by (intro card_empties_placePiece) (simp_all add: target)
    have readd: "set (setAdd pieceId (setDelete pieceId (st_remaining st))) = set (st_remaining st)"
      using Cons.prems(2) by (auto simp: set_setAdd set_setDelete)
    show ?thesis
    proof (cases "newMinSize (setDelete pieceId (st_remaining st))")
      case OutOfFuel
      then show ?thesis using newMinSize_result by blast
    next
      case TypeError
      have "\<not> known (st_remaining st)"
        using TypeError newMinSize_result known_setDelete by blast
      then show ?thesis
        unfolding x solveCells_throw[OF cp TypeError]
        by (simp add: verdict_def post_def)
    next
      case (Return newMin)
      show ?thesis
      proof (cases "hasDeadIslands ?h1 b newMin")
        case True
        let ?st' = "st\<lparr>st_remaining := setAdd pieceId (setDelete pieceId (st_remaining st)),
                       st_store := removePiece ?h1 b pieceId shape ?col ?row\<rparr>"
        have s: "sim st ?st'" using restore readd by (simp add: sim_def)
        have "verdict b ?st' fuel (solveCells fuel b target pieceId oi shape cells ?st')"
          using wf Cons.prems(2) restore readd sub' by (intro Cons.IH) simp_all
        from verdict_sim[OF s this] show ?thesis
          unfolding x solveCells_pruned[OF cp Return True] .
      next
        case False
        let ?p = "\<lparr>p_pieceId = pieceId, p_shape = shape, p_col = ?col,
                    p_row = ?row, p_orientationIndex = oi\<rparr>"
        let ?st1 = "st\<lparr>st_store := ?h1,
                        st_remaining := setDelete pieceId (st_remaining st),
                        st_solution := st_solution st @ [?p]\<rparr>"
        let ?k = "\<lambda>st2. solveCells fuel b target pieceId oi shape cells
              (st2\<lparr>st_solution := butlast (st_solution st2),
                   st_remaining := setAdd pieceId (st_remaining st2),
                   st_store := removePiece (st_store st2) b pieceId shape ?col ?row\<rparr>)"
        let ?r = "solve' fuel b newMin ?st1"
        from H[of ?st1 newMin] wf1 have Hr: "post b ?st1 ?r"
          "card (empties ?h1 b) < fuel \<longrightarrow> ?r \<noteq> OutOfFuel"
          "known (setDelete pieceId (st_remaining st)) \<longrightarrow> ?r \<noteq> TypeError"
          by simp_all
        have eq: "solveCells fuel b target pieceId oi shape (x # cells) st = continue ?r ?k"
          unfolding x by (rule solveCells_recurse[OF cp Return False])
        show ?thesis
        proof (cases ?r)
          case OutOfFuel
          then show ?thesis
            unfolding eq using Hr(2) less by (simp add: continue_def verdict_def post_def)
        next
          case TypeError
          then show ?thesis
            unfolding eq using Hr(3) known_setDelete
            by (auto simp: continue_def verdict_def post_def)
        next
          case Ret: (Return y)
          obtain res st2 where y: "y = (res, st2)" by (cases y)
          show ?thesis
          proof (cases res)
            case True
            with Hr(1) Ret y have sv: "solved b ?st1 st2" by (simp add: post_def)
            then obtain ps where ps: "st_solution st2 = (st_solution st @ [?p]) @ ps"
              "tiling b ?h1 (setDelete pieceId (st_remaining st)) ps"
              and fr: "frame b ?h1 (st_store st2)"
              by (auto simp: solved_def)
            have vp: "validPlacement ?p" using os by (simp add: validPlacement_def)
            have "tiling b ?h (st_remaining st) (?p # ps)"
              using wf cp vp Cons.prems(2) ps(2) by (intro tiling_Cons) simp_all
            moreover have "frame b ?h (st_store st2)"
              using frame_trans[OF frame_writeCells[OF wf] fr[unfolded placePiece_writeCells]] .
            ultimately have "solved b st st2"
              unfolding solved_def using ps(1) by auto
            then show ?thesis
              unfolding eq using Ret y True by (simp add: continue_def verdict_def post_def)
          next
            case False
            with Hr(1) Ret y have s12: "sim ?st1 st2" by (simp add: post_def)
            let ?st3 = "st2\<lparr>st_solution := butlast (st_solution st2),
                   st_remaining := setAdd pieceId (st_remaining st2),
                   st_store := removePiece (st_store st2) b pieceId shape ?col ?row\<rparr>"
            have s: "sim st ?st3"
              using s12 restore Cons.prems(2)
              by (auto simp: sim_def set_setAdd set_setDelete)
            have "verdict b ?st3 fuel (solveCells fuel b target pieceId oi shape cells ?st3)"
              using s wf Cons.prems(2) sub' by (intro Cons.IH) (auto simp: sim_def)
            from verdict_sim[OF s this] show ?thesis
              unfolding eq using Ret y False by (simp add: continue_def)
          qed
        qed
      qed
    qed
  qed
qed

lemma solveOrients_verdict:
  assumes H: "\<And>m st. wf_board (st_store st) b \<Longrightarrow>
      post b st (solve' fuel b m st) \<and>
      (card (empties (st_store st) b) < fuel \<longrightarrow> solve' fuel b m st \<noteq> OutOfFuel) \<and>
      (known (st_remaining st) \<longrightarrow> solve' fuel b m st \<noteq> TypeError)"
    and wf: "wf_board (st_store st) b"
    and mem: "pieceId \<in> set (st_remaining st)"
    and os: "ORIENTATIONS pieceId = Some os" "drop oi os = shapes"
  shows "verdict b st fuel (solveOrients fuel b target pieceId oi shapes st)"
  using wf mem os(2)
proof (induction shapes arbitrary: st oi)
  case Nil
  show ?case by (simp add: verdict_False)
next
  case (Cons shape shapes)
  have lt: "oi < length os"
    using Cons.prems(3) by (cases "oi < length os") simp_all
  have oi: "os ! oi = shape" "drop (Suc oi) os = shapes"
    using Cons.prems(3) Cons_nth_drop_Suc[OF lt] by simp_all
  show ?case
    unfolding solveOrients_Cons
  proof (rule verdict_continue)
    show "verdict b st fuel (solveCells fuel b target pieceId oi shape shape st)"
      using H Cons.prems(1,2) os(1) lt oi(1) by (intro solveCells_verdict) simp_all
  next
    fix st'
    assume "sim st st'"
    then show "verdict b st' fuel (solveOrients fuel b target pieceId (Suc oi) shapes st')"
      using Cons.prems(1,2) oi(2) by (intro Cons.IH) (auto simp: sim_def)
  qed
qed

lemma solvePieces_verdict:
  assumes H: "\<And>m st. wf_board (st_store st) b \<Longrightarrow>
      post b st (solve' fuel b m st) \<and>
      (card (empties (st_store st) b) < fuel \<longrightarrow> solve' fuel b m st \<noteq> OutOfFuel) \<and>
      (known (st_remaining st) \<longrightarrow> solve' fuel b m st \<noteq> TypeError)"
    and wf: "wf_board (st_store st) b"
    and sub: "set ids \<subseteq> set (st_remaining st)"
  shows "verdict b st fuel (solvePieces fuel b target ids st)"
  using wf sub
proof (induction ids arbitrary: st)
  case Nil
  show ?case by (simp add: verdict_False)
next
  case (Cons pieceId ids)
  show ?case
  proof (cases "ORIENTATIONS pieceId")
    case None
    then have "\<not> known (st_remaining st)"
      using Cons.prems(2) by (auto simp: known_def ORIENTATIONS_None)
    then show ?thesis
      unfolding solvePieces_Cons None by (simp add: verdict_def post_def)
  next
    case (Some os)
    show ?thesis
      unfolding solvePieces_Cons Some option.case
    proof (rule verdict_continue)
      show "verdict b st fuel (solveOrients fuel b target pieceId 0 os st)"
        using H Cons.prems Some by (intro solveOrients_verdict) simp_all
    next
      fix st'
      assume "sim st st'"
      then show "verdict b st' fuel (solvePieces fuel b target ids st')"
        using Cons.prems by (intro Cons.IH) (auto simp: sim_def)
    qed
  qed
qed

lemma tiling_Nil: "empties h b = {} \<Longrightarrow> tiling b h ids []"
  by (simp add: tiling_def)

lemma solve'_verdict:
  assumes "wf_board (st_store st) b"
  shows "post b st (solve' fuel b m st) \<and>
      (card (empties (st_store st) b) < fuel \<longrightarrow> solve' fuel b m st \<noteq> OutOfFuel) \<and>
      (known (st_remaining st) \<longrightarrow> solve' fuel b m st \<noteq> TypeError)"
  using assms
proof (induction fuel arbitrary: m st)
  case 0
  show ?case by (simp add: post_def)
next
  case (Suc fuel)
  show ?case
  proof (cases "findFirstEmpty (st_store st) b")
    case None
    then have "solved b st st"
      using Suc.prems
      by (auto simp: solved_def findFirstEmpty_None intro: tiling_Nil frame_refl)
    with None show ?thesis by (simp add: post_def)
  next
    case (Some target)
    have "verdict b st fuel (solvePieces fuel b target (st_remaining st) st)"
      using Suc.IH Suc.prems by (intro solvePieces_verdict) simp_all
    then show ?thesis using Some by (auto simp: verdict_def)
  qed
qed

subsection \<open>What a call of the counter leaves behind\<close>

definition postC :: "int \<Rightarrow> cstate \<Rightarrow> cstate \<Rightarrow> bool" where
  "postC k st st' \<longleftrightarrow>
     c_store st' = c_store st \<and> set (c_remaining st') = set (c_remaining st) \<and>
     c_count st \<le> c_count st' \<and> (c_count st \<le> k \<longrightarrow> c_count st' \<le> k)"

definition verdictC :: "board \<Rightarrow> int \<Rightarrow> cstate \<Rightarrow> nat \<Rightarrow> (bool \<times> cstate) outcome \<Rightarrow> bool" where
  "verdictC b k st n r \<longleftrightarrow>
     (case r of Return (flag, st') \<Rightarrow> postC k st st' | _ \<Rightarrow> True) \<and>
     (card (empties (c_store st) b) \<le> n \<longrightarrow> r \<noteq> OutOfFuel) \<and>
     (known (c_remaining st) \<longrightarrow> r \<noteq> TypeError)"

definition continueC :: "(bool \<times> cstate) outcome \<Rightarrow> (cstate \<Rightarrow> (bool \<times> cstate) outcome)
    \<Rightarrow> (bool \<times> cstate) outcome" where
  "continueC r kf = (case r of Return (False, st') \<Rightarrow> kf st' | _ \<Rightarrow> r)"

lemma postC_refl: "postC k st st"
  by (simp add: postC_def)

lemma postC_trans: "postC k st st1 \<Longrightarrow> postC k st1 st2 \<Longrightarrow> postC k st st2"
  by (auto simp: postC_def)

lemma verdictC_postC:
  assumes "postC k st st'" "verdictC b k st' n r"
  shows "verdictC b k st n r"
  using assms postC_trans[OF assms(1)]
  by (auto simp: verdictC_def known_def postC_def split: outcome.splits prod.splits)

lemma verdictC_False: "verdictC b k st n (Return (False, st))"
  by (simp add: verdictC_def postC_refl)

lemma verdictC_continue:
  assumes "verdictC b k st n r"
    and "\<And>st'. r = Return (False, st') \<Longrightarrow> postC k st st' \<Longrightarrow> verdictC b k st' n (kf st')"
  shows "verdictC b k st n (continueC r kf)"
proof (cases r)
  case (Return x)
  obtain flag st' where x: "x = (flag, st')" by (cases x)
  have p: "postC k st st'" using assms(1) Return x by (simp add: verdictC_def)
  show ?thesis
  proof (cases flag)
    case True
    then show ?thesis using assms(1) Return x by (simp add: continueC_def)
  next
    case False
    from assms(2)[OF _ p] Return x False have "verdictC b k st' n (kf st')" by simp
    from verdictC_postC[OF p this] show ?thesis using Return x False by (simp add: continueC_def)
  qed
qed (use assms(1) in \<open>simp_all add: continueC_def\<close>)

lemma countPieces_Cons:
  "countPieces fuel b k target (pieceId # pieceIds) st =
     (case ORIENTATIONS pieceId of None \<Rightarrow> TypeError
      | Some orientations \<Rightarrow>
          continueC (countOrients fuel b k target pieceId orientations st)
            (countPieces fuel b k target pieceIds))"
  by (simp add: continueC_def split: option.splits outcome.splits prod.splits bool.splits)

lemma countOrients_Cons:
  "countOrients fuel b k target pieceId (shape # shapes) st =
     continueC (countCells fuel b k target pieceId shape shape st)
       (countOrients fuel b k target pieceId shapes)"
  by (simp add: continueC_def split: option.splits outcome.splits prod.splits bool.splits)

lemma countCells_skip:
  assumes "\<not> canPlace (c_store st) b shape (fst target - dc) (snd target - dr)"
  shows "countCells fuel b k target pieceId shape ((dc, dr) # cells) st =
         countCells fuel b k target pieceId shape cells st"
  using assms by (simp add: Let_def)

lemma countCells_throw:
  assumes "canPlace (c_store st) b shape (fst target - dc) (snd target - dr)"
    and "newMinSize (setDelete pieceId (c_remaining st)) = TypeError"
  shows "countCells fuel b k target pieceId shape ((dc, dr) # cells) st = TypeError"
  using assms by (simp add: Let_def)

lemma countCells_pruned:
  assumes "canPlace (c_store st) b shape (fst target - dc) (snd target - dr)"
    and "newMinSize (setDelete pieceId (c_remaining st)) = Return newMin"
    and "hasDeadIslands
           (placePiece (c_store st) b pieceId shape (fst target - dc) (snd target - dr)) b newMin"
  shows "countCells fuel b k target pieceId shape ((dc, dr) # cells) st =
         countCells fuel b k target pieceId shape cells
           (st\<lparr>c_remaining := setAdd pieceId (setDelete pieceId (c_remaining st)),
               c_store := removePiece
                  (placePiece (c_store st) b pieceId shape (fst target - dc) (snd target - dr))
                  b pieceId shape (fst target - dc) (snd target - dr)\<rparr>)"
  using assms by (simp add: Let_def)

lemma countCells_recurse:
  assumes "canPlace (c_store st) b shape (fst target - dc) (snd target - dr)"
    and "newMinSize (setDelete pieceId (c_remaining st)) = Return newMin"
    and "\<not> hasDeadIslands
           (placePiece (c_store st) b pieceId shape (fst target - dc) (snd target - dr)) b newMin"
  shows "countCells fuel b k target pieceId shape ((dc, dr) # cells) st =
         (case countSolve' fuel b k newMin
              (st\<lparr>c_store := placePiece (c_store st) b pieceId shape
                                (fst target - dc) (snd target - dr),
                  c_remaining := setDelete pieceId (c_remaining st)\<rparr>) of
            Return st2 \<Rightarrow>
              if c_count st2 \<ge> k then
                Return (True, st2\<lparr>c_remaining := setAdd pieceId (c_remaining st2),
                                c_store := removePiece (c_store st2) b pieceId shape
                                             (fst target - dc) (snd target - dr)\<rparr>)
              else countCells fuel b k target pieceId shape cells
                     (st2\<lparr>c_remaining := setAdd pieceId (c_remaining st2),
                          c_store := removePiece (c_store st2) b pieceId shape
                                       (fst target - dc) (snd target - dr)\<rparr>)
          | TypeError \<Rightarrow> TypeError
          | OutOfFuel \<Rightarrow> OutOfFuel)"
  using assms
  by (simp add: Let_def split: outcome.splits)

lemma countCells_verdict:
  assumes H: "\<And>m st. wf_board (c_store st) b \<Longrightarrow>
      (case countSolve' fuel b k m st of Return st' \<Rightarrow> postC k st st' | _ \<Rightarrow> True) \<and>
      (card (empties (c_store st) b) < fuel \<longrightarrow> countSolve' fuel b k m st \<noteq> OutOfFuel) \<and>
      (known (c_remaining st) \<longrightarrow> countSolve' fuel b k m st \<noteq> TypeError)"
    and wf: "wf_board (c_store st) b"
    and mem: "pieceId \<in> set (c_remaining st)"
    and sub: "set cells \<subseteq> set shape"
  shows "verdictC b k st fuel (countCells fuel b k target pieceId shape cells st)"
  using wf mem sub
proof (induction cells arbitrary: st)
  case Nil
  show ?case by (simp add: verdictC_False)
next
  case (Cons x cells)
  obtain dc dr where x: "x = (dc, dr)" by (cases x)
  obtain tc tr where target: "target = (tc, tr)" by (cases target)
  let ?col = "fst target - dc" and ?row = "snd target - dr"
  let ?h = "c_store st"
  let ?h1 = "placePiece ?h b pieceId shape ?col ?row"
  note wf = Cons.prems(1)
  have sub': "set cells \<subseteq> set shape" using Cons.prems(3) by simp
  have xin: "(dc, dr) \<in> set shape" using Cons.prems(3) x by simp
  show ?case
  proof (cases "canPlace ?h b shape ?col ?row")
    case False
    then show ?thesis
      unfolding x countCells_skip[OF False]
      using Cons.IH[OF Cons.prems(1,2) sub'] by simp
  next
    case cp: True
    have wf1: "wf_board ?h1 b"
      using wf by (simp add: placePiece_writeCells wf_board_writeCells)
    have restore: "removePiece ?h1 b pieceId shape ?col ?row = ?h"
      using wf cp by (rule place_then_remove)
    have less: "card (empties ?h1 b) < card (empties ?h b)"
      using wf cp target_in_cellsAt[OF xin, of tc tr]
      by (intro card_empties_placePiece) (simp_all add: target)
    have readd: "set (setAdd pieceId (setDelete pieceId (c_remaining st))) = set (c_remaining st)"
      using Cons.prems(2) by (auto simp: set_setAdd set_setDelete)
    show ?thesis
    proof (cases "newMinSize (setDelete pieceId (c_remaining st))")
      case OutOfFuel
      then show ?thesis using newMinSize_result by blast
    next
      case TypeError
      have "\<not> known (c_remaining st)"
        using TypeError newMinSize_result known_setDelete by blast
      then show ?thesis
        unfolding x countCells_throw[OF cp TypeError]
        by (simp add: verdictC_def)
    next
      case (Return newMin)
      show ?thesis
      proof (cases "hasDeadIslands ?h1 b newMin")
        case True
        let ?st' = "st\<lparr>c_remaining := setAdd pieceId (setDelete pieceId (c_remaining st)),
                       c_store := removePiece ?h1 b pieceId shape ?col ?row\<rparr>"
        have s: "postC k st ?st'" using restore readd by (simp add: postC_def)
        have "verdictC b k ?st' fuel (countCells fuel b k target pieceId shape cells ?st')"
          using wf Cons.prems(2) restore readd sub' by (intro Cons.IH) simp_all
        from verdictC_postC[OF s this] show ?thesis
          unfolding x countCells_pruned[OF cp Return True] .
      next
        case nd: False
        let ?st1 = "st\<lparr>c_store := ?h1, c_remaining := setDelete pieceId (c_remaining st)\<rparr>"
        let ?r = "countSolve' fuel b k newMin ?st1"
        from H[of ?st1 newMin] wf1 have Hr:
          "case ?r of Return st' \<Rightarrow> postC k ?st1 st' | _ \<Rightarrow> True"
          "card (empties ?h1 b) < fuel \<longrightarrow> ?r \<noteq> OutOfFuel"
          "known (setDelete pieceId (c_remaining st)) \<longrightarrow> ?r \<noteq> TypeError"
          by simp_all
        show ?thesis
        proof (cases ?r)
          case OutOfFuel
          then show ?thesis
            unfolding x countCells_recurse[OF cp Return nd]
            using Hr(2) less by (simp add: verdictC_def)
        next
          case TypeError
          then show ?thesis
            unfolding x countCells_recurse[OF cp Return nd]
            using Hr(3) known_setDelete by (auto simp: verdictC_def)
        next
          case Ret: (Return st2)
          with Hr(1) have p12: "postC k ?st1 st2" by simp
          let ?st3 = "st2\<lparr>c_remaining := setAdd pieceId (c_remaining st2),
                          c_store := removePiece (c_store st2) b pieceId shape ?col ?row\<rparr>"
          have p: "postC k st ?st3"
            using p12 restore Cons.prems(2)
            by (auto simp: postC_def set_setAdd set_setDelete)
          show ?thesis
          proof (cases "c_count st2 \<ge> k")
            case True
            then show ?thesis
              unfolding x countCells_recurse[OF cp Return nd]
              using Ret p by (simp add: verdictC_def)
          next
            case False
            have "verdictC b k ?st3 fuel (countCells fuel b k target pieceId shape cells ?st3)"
              using p wf Cons.prems(2) sub' by (intro Cons.IH) (auto simp: postC_def)
            from verdictC_postC[OF p this] show ?thesis
              unfolding x countCells_recurse[OF cp Return nd]
              using Ret False by simp
          qed
        qed
      qed
    qed
  qed
qed

lemma countOrients_verdict:
  assumes H: "\<And>m st. wf_board (c_store st) b \<Longrightarrow>
      (case countSolve' fuel b k m st of Return st' \<Rightarrow> postC k st st' | _ \<Rightarrow> True) \<and>
      (card (empties (c_store st) b) < fuel \<longrightarrow> countSolve' fuel b k m st \<noteq> OutOfFuel) \<and>
      (known (c_remaining st) \<longrightarrow> countSolve' fuel b k m st \<noteq> TypeError)"
    and wf: "wf_board (c_store st) b"
    and mem: "pieceId \<in> set (c_remaining st)"
  shows "verdictC b k st fuel (countOrients fuel b k target pieceId shapes st)"
  using wf mem
proof (induction shapes arbitrary: st)
  case Nil
  show ?case by (simp add: verdictC_False)
next
  case (Cons shape shapes)
  show ?case
    unfolding countOrients_Cons
  proof (rule verdictC_continue)
    show "verdictC b k st fuel (countCells fuel b k target pieceId shape shape st)"
      using H Cons.prems by (intro countCells_verdict) simp_all
  next
    fix st'
    assume "postC k st st'"
    then show "verdictC b k st' fuel (countOrients fuel b k target pieceId shapes st')"
      using Cons.prems by (intro Cons.IH) (auto simp: postC_def)
  qed
qed

lemma countPieces_verdict:
  assumes H: "\<And>m st. wf_board (c_store st) b \<Longrightarrow>
      (case countSolve' fuel b k m st of Return st' \<Rightarrow> postC k st st' | _ \<Rightarrow> True) \<and>
      (card (empties (c_store st) b) < fuel \<longrightarrow> countSolve' fuel b k m st \<noteq> OutOfFuel) \<and>
      (known (c_remaining st) \<longrightarrow> countSolve' fuel b k m st \<noteq> TypeError)"
    and wf: "wf_board (c_store st) b"
    and sub: "set ids \<subseteq> set (c_remaining st)"
  shows "verdictC b k st fuel (countPieces fuel b k target ids st)"
  using wf sub
proof (induction ids arbitrary: st)
  case Nil
  show ?case by (simp add: verdictC_False)
next
  case (Cons pieceId ids)
  show ?case
  proof (cases "ORIENTATIONS pieceId")
    case None
    then have "\<not> known (c_remaining st)"
      using Cons.prems(2) by (auto simp: known_def ORIENTATIONS_None)
    then show ?thesis
      unfolding countPieces_Cons None by (simp add: verdictC_def)
  next
    case (Some os)
    show ?thesis
      unfolding countPieces_Cons Some option.case
    proof (rule verdictC_continue)
      show "verdictC b k st fuel (countOrients fuel b k target pieceId os st)"
        using H Cons.prems by (intro countOrients_verdict) simp_all
    next
      fix st'
      assume "postC k st st'"
      then show "verdictC b k st' fuel (countPieces fuel b k target ids st')"
        using Cons.prems by (intro Cons.IH) (auto simp: postC_def)
    qed
  qed
qed

lemma countSolve'_verdict:
  assumes "wf_board (c_store st) b"
  shows "(case countSolve' fuel b k m st of Return st' \<Rightarrow> postC k st st' | _ \<Rightarrow> True) \<and>
      (card (empties (c_store st) b) < fuel \<longrightarrow> countSolve' fuel b k m st \<noteq> OutOfFuel) \<and>
      (known (c_remaining st) \<longrightarrow> countSolve' fuel b k m st \<noteq> TypeError)"
  using assms
proof (induction fuel arbitrary: m st)
  case 0
  show ?case by simp
next
  case (Suc fuel)
  show ?case
  proof (cases "c_count st \<ge> k")
    case True
    then show ?thesis by (simp add: postC_refl)
  next
    case lt: False
    show ?thesis
    proof (cases "findFirstEmpty (c_store st) b")
      case None
      then show ?thesis using lt by (simp add: postC_def)
    next
      case (Some target)
      have "verdictC b k st fuel (countPieces fuel b k target (c_remaining st) st)"
        using Suc.IH Suc.prems by (intro countPieces_verdict) simp_all
      then show ?thesis using Some lt
        by (auto simp: verdictC_def split: outcome.splits prod.splits)
    qed
  qed
qed

subsection \<open>What a call of the ordered search leaves behind\<close>

definition simO :: "ostate \<Rightarrow> ostate \<Rightarrow> bool" where
  "simO st st' \<longleftrightarrow> os_store st' = os_store st \<and> os_solution st' = os_solution st"

definition postO :: "board \<Rightarrow> ostate \<Rightarrow> (bool \<times> ostate) outcome \<Rightarrow> bool" where
  "postO b st r \<longleftrightarrow>
     (case r of
        Return (res, st') \<Rightarrow>
          if res then frame b (os_store st) (os_store st') else simO st st'
      | _ \<Rightarrow> True)"

definition verdictO :: "board \<Rightarrow> ostate \<Rightarrow> nat \<Rightarrow> (bool \<times> ostate) outcome \<Rightarrow> bool" where
  "verdictO b st n r \<longleftrightarrow>
     postO b st r \<and> (card (empties (os_store st) b) \<le> n \<longrightarrow> r \<noteq> OutOfFuel)"

definition continueO :: "(bool \<times> ostate) outcome \<Rightarrow> (ostate \<Rightarrow> (bool \<times> ostate) outcome)
    \<Rightarrow> (bool \<times> ostate) outcome" where
  "continueO r k = (case r of Return (False, st') \<Rightarrow> k st' | _ \<Rightarrow> r)"

lemma verdictO_sim:
  assumes "simO st st'" "verdictO b st' n r"
  shows "verdictO b st n r"
  using assms
  by (auto simp: verdictO_def postO_def simO_def split: outcome.splits prod.splits if_splits)

lemma verdictO_False: "verdictO b st n (Return (False, st))"
  by (simp add: verdictO_def postO_def simO_def)

lemma verdictO_continue:
  assumes "verdictO b st n r"
    and "\<And>st'. r = Return (False, st') \<Longrightarrow> simO st st' \<Longrightarrow> verdictO b st' n (k st')"
  shows "verdictO b st n (continueO r k)"
proof (cases r)
  case (Return x)
  obtain res st' where x: "x = (res, st')" by (cases x)
  show ?thesis
  proof (cases res)
    case True
    then show ?thesis using assms(1) Return x by (simp add: continueO_def)
  next
    case False
    then have s: "simO st st'" using assms(1) Return x by (simp add: verdictO_def postO_def)
    from assms(2)[OF _ s] Return x False have "verdictO b st' n (k st')" by simp
    from verdictO_sim[OF s this] show ?thesis using Return x False by (simp add: continueO_def)
  qed
qed (use assms(1) in \<open>simp_all add: continueO_def\<close>)

lemma orderedPieces_Cons:
  "orderedPieces fuel b target ids (i # is) st =
     (case ORIENTATIONS (ids ! i) of None \<Rightarrow> TypeError
      | Some orientations \<Rightarrow>
          continueO (orderedOrients fuel b target ids i 0 orientations st)
            (orderedPieces fuel b target ids is))"
  by (simp add: continueO_def split: option.splits outcome.splits prod.splits bool.splits)

lemma orderedOrients_Cons:
  "orderedOrients fuel b target ids i oi (shape # shapes) st =
     continueO (orderedCells fuel b target ids i oi shape shape st)
       (orderedOrients fuel b target ids i (Suc oi) shapes)"
  by (simp add: continueO_def split: option.splits outcome.splits prod.splits bool.splits)

lemma orderedCells_skip:
  assumes "\<not> canPlace (os_store st) b shape (fst target - dc) (snd target - dr)"
  shows "orderedCells fuel b target ids i oi shape ((dc, dr) # cells) st =
         orderedCells fuel b target ids i oi shape cells st"
  using assms by (simp add: Let_def)

lemma orderedCells_throw:
  assumes "canPlace (os_store st) b shape (fst target - dc) (snd target - dr)"
    and "newMinSize (take i ids @ drop (Suc i) ids) = TypeError"
  shows "orderedCells fuel b target ids i oi shape ((dc, dr) # cells) st = TypeError"
  using assms by (simp add: Let_def)

lemma orderedCells_pruned:
  assumes "canPlace (os_store st) b shape (fst target - dc) (snd target - dr)"
    and "newMinSize (take i ids @ drop (Suc i) ids) = Return newMin"
    and "hasDeadIslands
           (placePiece (os_store st) b (ids ! i) shape (fst target - dc) (snd target - dr))
           b newMin"
  shows "orderedCells fuel b target ids i oi shape ((dc, dr) # cells) st =
         orderedCells fuel b target ids i oi shape cells
           (st\<lparr>os_store := removePiece
                  (placePiece (os_store st) b (ids ! i) shape (fst target - dc) (snd target - dr))
                  b (ids ! i) shape (fst target - dc) (snd target - dr)\<rparr>)"
  using assms by (simp add: Let_def)

lemma orderedCells_recurse:
  assumes "canPlace (os_store st) b shape (fst target - dc) (snd target - dr)"
    and "newMinSize (take i ids @ drop (Suc i) ids) = Return newMin"
    and "\<not> hasDeadIslands
           (placePiece (os_store st) b (ids ! i) shape (fst target - dc) (snd target - dr))
           b newMin"
  shows "orderedCells fuel b target ids i oi shape ((dc, dr) # cells) st =
         continueO
           (solveOrdered' fuel b (take i ids @ drop (Suc i) ids) newMin
              (st\<lparr>os_store := placePiece (os_store st) b (ids ! i) shape
                                (fst target - dc) (snd target - dr),
                  os_solution := os_solution st @
                    [\<lparr>p_pieceId = ids ! i, p_shape = shape, p_col = fst target - dc,
                      p_row = snd target - dr, p_orientationIndex = oi\<rparr>]\<rparr>))
           (\<lambda>st2. orderedCells fuel b target ids i oi shape cells
              (st2\<lparr>os_solution := butlast (os_solution st2),
                   os_store := removePiece (os_store st2) b (ids ! i) shape
                                 (fst target - dc) (snd target - dr)\<rparr>))"
  using assms
  by (simp add: Let_def continueO_def split: outcome.splits prod.splits bool.splits)

lemma orderedCells_verdict:
  assumes H: "\<And>ids m st. wf_board (os_store st) b \<Longrightarrow>
      postO b st (solveOrdered' fuel b ids m st) \<and>
      (card (empties (os_store st) b) < fuel \<longrightarrow> solveOrdered' fuel b ids m st \<noteq> OutOfFuel)"
    and wf: "wf_board (os_store st) b"
    and sub: "set cells \<subseteq> set shape"
  shows "verdictO b st fuel (orderedCells fuel b target ids i oi shape cells st)"
  using wf sub
proof (induction cells arbitrary: st)
  case Nil
  show ?case by (simp add: verdictO_False)
next
  case (Cons x cells)
  obtain dc dr where x: "x = (dc, dr)" by (cases x)
  obtain tc tr where target: "target = (tc, tr)" by (cases target)
  let ?col = "fst target - dc" and ?row = "snd target - dr"
  let ?h = "os_store st"
  let ?h1 = "placePiece ?h b (ids ! i) shape ?col ?row"
  let ?rest = "take i ids @ drop (Suc i) ids"
  note wf = Cons.prems(1)
  have sub': "set cells \<subseteq> set shape" using Cons.prems(2) by simp
  have xin: "(dc, dr) \<in> set shape" using Cons.prems(2) x by simp
  show ?case
  proof (cases "canPlace ?h b shape ?col ?row")
    case False
    then show ?thesis
      unfolding x orderedCells_skip[OF False]
      using Cons.IH[OF Cons.prems(1) sub'] by simp
  next
    case cp: True
    have wf1: "wf_board ?h1 b"
      using wf by (simp add: placePiece_writeCells wf_board_writeCells)
    have restore: "removePiece ?h1 b (ids ! i) shape ?col ?row = ?h"
      using wf cp by (rule place_then_remove)
    have less: "card (empties ?h1 b) < card (empties ?h b)"
      using wf cp target_in_cellsAt[OF xin, of tc tr]
      by (intro card_empties_placePiece) (simp_all add: target)
    show ?thesis
    proof (cases "newMinSize ?rest")
      case OutOfFuel
      then show ?thesis using newMinSize_result by blast
    next
      case TypeError
      show ?thesis
        unfolding x orderedCells_throw[OF cp TypeError]
        by (simp add: verdictO_def postO_def)
    next
      case (Return newMin)
      show ?thesis
      proof (cases "hasDeadIslands ?h1 b newMin")
        case True
        let ?st' = "st\<lparr>os_store := removePiece ?h1 b (ids ! i) shape ?col ?row\<rparr>"
        have s: "simO st ?st'" using restore by (simp add: simO_def)
        have "verdictO b ?st' fuel (orderedCells fuel b target ids i oi shape cells ?st')"
          using wf restore sub' by (intro Cons.IH) simp_all
        from verdictO_sim[OF s this] show ?thesis
          unfolding x orderedCells_pruned[OF cp Return True] .
      next
        case nd: False
        let ?p = "\<lparr>p_pieceId = ids ! i, p_shape = shape, p_col = ?col,
                    p_row = ?row, p_orientationIndex = oi\<rparr>"
        let ?st1 = "st\<lparr>os_store := ?h1, os_solution := os_solution st @ [?p]\<rparr>"
        let ?r = "solveOrdered' fuel b ?rest newMin ?st1"
        from H[of ?st1 ?rest newMin] wf1 have Hr:
          "postO b ?st1 ?r" "card (empties ?h1 b) < fuel \<longrightarrow> ?r \<noteq> OutOfFuel"
          by simp_all
        show ?thesis
        proof (cases ?r)
          case OutOfFuel
          then show ?thesis
            unfolding x orderedCells_recurse[OF cp Return nd]
            using Hr(2) less by (simp add: continueO_def verdictO_def postO_def)
        next
          case TypeError
          then show ?thesis
            unfolding x orderedCells_recurse[OF cp Return nd]
            by (simp add: continueO_def verdictO_def postO_def)
        next
          case Ret: (Return y)
          obtain res st2 where y: "y = (res, st2)" by (cases y)
          show ?thesis
          proof (cases res)
            case True
            with Hr(1) Ret y have fr: "frame b ?h1 (os_store st2)" by (simp add: verdictO_def postO_def)
            have "frame b ?h (os_store st2)"
              using frame_trans[OF frame_writeCells[OF wf] fr[unfolded placePiece_writeCells]] .
            then show ?thesis
              unfolding x orderedCells_recurse[OF cp Return nd]
              using Ret y True by (simp add: continueO_def verdictO_def postO_def)
          next
            case False
            with Hr(1) Ret y have s12: "simO ?st1 st2" by (simp add: verdictO_def postO_def)
            let ?st3 = "st2\<lparr>os_solution := butlast (os_solution st2),
                   os_store := removePiece (os_store st2) b (ids ! i) shape ?col ?row\<rparr>"
            have s: "simO st ?st3"
              using s12 restore by (auto simp: simO_def)
            have "verdictO b ?st3 fuel (orderedCells fuel b target ids i oi shape cells ?st3)"
              using s wf sub' by (intro Cons.IH) (auto simp: simO_def)
            from verdictO_sim[OF s this] show ?thesis
              unfolding x orderedCells_recurse[OF cp Return nd]
              using Ret y False by (simp add: continueO_def)
          qed
        qed
      qed
    qed
  qed
qed

lemma orderedOrients_verdict:
  assumes H: "\<And>ids m st. wf_board (os_store st) b \<Longrightarrow>
      postO b st (solveOrdered' fuel b ids m st) \<and>
      (card (empties (os_store st) b) < fuel \<longrightarrow> solveOrdered' fuel b ids m st \<noteq> OutOfFuel)"
    and wf: "wf_board (os_store st) b"
  shows "verdictO b st fuel (orderedOrients fuel b target ids i oi shapes st)"
  using wf
proof (induction shapes arbitrary: st oi)
  case Nil
  show ?case by (simp add: verdictO_False)
next
  case (Cons shape shapes)
  show ?case
    unfolding orderedOrients_Cons
  proof (rule verdictO_continue)
    show "verdictO b st fuel (orderedCells fuel b target ids i oi shape shape st)"
      using H Cons.prems by (intro orderedCells_verdict) simp_all
  next
    fix st'
    assume "simO st st'"
    then show "verdictO b st' fuel (orderedOrients fuel b target ids i (Suc oi) shapes st')"
      using Cons.prems by (intro Cons.IH) (auto simp: simO_def)
  qed
qed

lemma orderedPieces_verdict:
  assumes H: "\<And>ids m st. wf_board (os_store st) b \<Longrightarrow>
      postO b st (solveOrdered' fuel b ids m st) \<and>
      (card (empties (os_store st) b) < fuel \<longrightarrow> solveOrdered' fuel b ids m st \<noteq> OutOfFuel)"
    and wf: "wf_board (os_store st) b"
  shows "verdictO b st fuel (orderedPieces fuel b target ids is st)"
  using wf
proof (induction "is" arbitrary: st)
  case Nil
  show ?case by (simp add: verdictO_False)
next
  case (Cons i "is")
  show ?case
  proof (cases "ORIENTATIONS (ids ! i)")
    case None
    then show ?thesis
      unfolding orderedPieces_Cons None by (simp add: verdictO_def postO_def)
  next
    case (Some os)
    show ?thesis
      unfolding orderedPieces_Cons Some option.case
    proof (rule verdictO_continue)
      show "verdictO b st fuel (orderedOrients fuel b target ids i 0 os st)"
        using H Cons.prems by (intro orderedOrients_verdict) simp_all
    next
      fix st'
      assume "simO st st'"
      then show "verdictO b st' fuel (orderedPieces fuel b target ids is st')"
        using Cons.prems by (intro Cons.IH) (auto simp: simO_def)
    qed
  qed
qed

lemma solveOrdered'_verdict:
  assumes "wf_board (os_store st) b"
  shows "postO b st (solveOrdered' fuel b ids m st) \<and>
      (card (empties (os_store st) b) < fuel \<longrightarrow> solveOrdered' fuel b ids m st \<noteq> OutOfFuel)"
  using assms
proof (induction fuel arbitrary: ids m st)
  case 0
  show ?case by (simp add: postO_def)
next
  case (Suc fuel)
  show ?case
  proof (cases "findFirstEmpty (os_store st) b")
    case None
    then show ?thesis
      using Suc.prems by (simp add: postO_def frame_refl)
  next
    case (Some target)
    have "verdictO b st fuel
            (orderedPieces fuel b target ids [0..<length ids] st)"
      using Suc.IH Suc.prems by (intro orderedPieces_verdict) simp_all
    then show ?thesis using Some by (auto simp: verdictO_def)
  qed
qed

subsection \<open>The entry points\<close>

lemma card_grid: "card grid = 55"
  by (simp add: grid_def ROWS_def COLS_def)

lemma card_empties_le: "card (empties h b) \<le> 55"
  using card_mono[OF finite_grid empties_grid[of h b]] by (simp add: card_grid)

lemma card_empties_fuel: "card (empties h b) < searchFuel"
  using card_empties_le[of h b] by (simp add: searchFuel_def ROWS_def COLS_def)

lemma cloneBoard_wf:
  assumes "wf_board h b" "cloneBoard h b = (h1, wb)"
  shows "wf_board h1 wb"
proof -
  have h1: "h1 = h @ map (\<lambda>a. if a < length h then h ! a else []) b"
    and wb: "wb = [length h ..< length h + length b]"
    using assms(2) by (auto simp: cloneBoard_def)
  have "a < length h1 \<and> int (length (h1 ! a)) = COLS" if "a \<in> set wb" for a
  proof -
    from that wb obtain i where i: "a = length h + i" "i < length b"
      by (auto simp: nat_le_iff_add)
    then have "b ! i \<in> set b" by simp
    with assms(1) have "b ! i < length h" "int (length (h ! (b ! i))) = COLS"
      by (auto simp: wf_board_def list_all_iff)
    with i show ?thesis by (simp add: h1 nth_append)
  qed
  then show ?thesis
    using assms(1) by (simp add: wf_board_def wb list_all_iff)
qed

lemma cloneBoard_prefix:
  assumes "cloneBoard h b = (h1, wb)" "frame wb h1 h2"
  shows "take (length h) h2 = h"
proof (rule nth_equalityI)
  have h1: "h1 = h @ map (\<lambda>a. if a < length h then h ! a else []) b"
    and wb: "wb = [length h ..< length h + length b]"
    using assms(1) by (auto simp: cloneBoard_def)
  have len: "length h2 = length h + length b" using assms(2) by (simp add: frame_def h1)
  then show "length (take (length h) h2) = length h" by simp
  fix a assume "a < length (take (length h) h2)"
  then have a: "a < length h" by simp
  then have "a \<notin> set wb" by (simp add: wb)
  then have "h2 ! a = h1 ! a" using assms(2) by (simp add: frame_def)
  then show "take (length h) h2 ! a = h ! a" using a by (simp add: h1 nth_append)
qed

lemma cloneBoard_empties:
  assumes "wf_board h b" "cloneBoard h b = (h1, wb)"
  shows "empties h1 wb = empties h b"
proof -
  have h1: "h1 = h @ map (\<lambda>a. if a < length h then h ! a else []) b"
    and wb: "wb = [length h ..< length h + length b]"
    using assms(2) by (auto simp: cloneBoard_def)
  have wf1: "wf_board h1 wb" using assms by (rule cloneBoard_wf)
  have "isNull h1 wb r c = isNull h b r c" if g: "(c, r) \<in> grid" for c r
  proof -
    note rows = wf_board_row[OF assms(1) g]
    have "wb ! nat r = length h + nat r" using rows(1) by (simp add: wb)
    then have "h1 ! (wb ! nat r) = h ! (b ! nat r)"
      using rows by (simp add: h1 nth_append)
    then show ?thesis
      by (simp add: isNull_wf[OF wf1 g] isNull_wf[OF assms(1) g])
  qed
  then show ?thesis by (auto simp: empties_def)
qed

lemma caller_rows:
  assumes "wf_board h b" "take (length h) h' = h" "a \<in> set b"
  shows "h' ! a = h ! a"
proof -
  from assms(1,3) have "a < length h" by (auto simp: wf_board_def list_all_iff)
  then have "take (length h) h' ! a = h' ! a" by simp
  with assms(2) show ?thesis by simp
qed

lemma sortLargerFirst_set:
  "sortLargerFirst ids = Return ids' \<Longrightarrow> set ids' = set ids"
  by (auto simp: sortLargerFirst_def split: if_splits)

lemma sortLargerFirst_result:
  "sortLargerFirst ids \<noteq> OutOfFuel \<and> (known ids \<longrightarrow> sortLargerFirst ids \<noteq> TypeError)"
  by (auto simp: sortLargerFirst_def known_def PIECE_MAP_None)

text \<open>What \<^verbatim>\<open>solve\<close> does, in terms of the copy it works on.\<close>

lemma solve_cases:
  assumes wf: "wf_board h b"
  shows "solve h b ids \<noteq> OutOfFuel \<and>
     (known ids \<longrightarrow> solve h b ids \<noteq> TypeError) \<and>
     (\<forall>r h'. solve h b ids = Return (r, h') \<longrightarrow>
        take (length h) h' = h \<and>
        (\<forall>sol. r = Some sol \<longrightarrow> (\<exists>h1 wb. cloneBoard h b = (h1, wb) \<and> tiling wb h1 ids sol)))"
proof -
  obtain h1 wb where cb: "cloneBoard h b = (h1, wb)" by (cases "cloneBoard h b")
  have wf1: "wf_board h1 wb" using wf cb by (rule cloneBoard_wf)
  show ?thesis
  proof (cases "sortLargerFirst (setOf ids)")
    case OutOfFuel
    then show ?thesis using sortLargerFirst_result by blast
  next
    case TypeError
    then have "\<not> known ids"
      using sortLargerFirst_result[of "setOf ids"] by (auto simp: known_def set_setOf)
    with TypeError show ?thesis by (simp add: solve_def cb)
  next
    case (Return sortedIds)
    let ?st = "\<lparr>st_store = h1, st_remaining = setOf sortedIds, st_solution = []\<rparr>"
    let ?r = "solve' searchFuel wb 3 ?st"
    have ids: "set (setOf sortedIds) = set ids"
      using sortLargerFirst_set[OF Return] by (simp add: set_setOf)
    have v: "post wb ?st ?r" "?r \<noteq> OutOfFuel" "known ids \<longrightarrow> ?r \<noteq> TypeError"
      using solve'_verdict[where st="?st" and b=wb and fuel=searchFuel and m=3] wf1 card_empties_fuel[of h1 wb] ids
      by (simp_all add: known_def)
    have eq: "solve h b ids =
        (case ?r of Return (True, st) \<Rightarrow> Return (Some (st_solution st), st_store st)
         | Return (False, st) \<Rightarrow> Return (None, st_store st)
         | TypeError \<Rightarrow> TypeError | OutOfFuel \<Rightarrow> OutOfFuel)"
      by (simp add: solve_def cb Return)
    show ?thesis
    proof (cases ?r)
      case OutOfFuel
      with v show ?thesis by simp
    next
      case TypeError
      with v eq show ?thesis by simp
    next
      case Ret: (Return y)
      obtain res st where y: "y = (res, st)" by (cases y)
      show ?thesis
      proof (cases res)
        case True
        with v(1) Ret y have "solved wb ?st st" by (simp add: post_def)
        then have "tiling wb h1 ids (st_solution st)" "frame wb h1 (st_store st)"
          using ids by (auto simp: solved_def tiling_def)
        then show ?thesis
          using eq Ret y True cb cloneBoard_prefix[OF cb] by simp
      next
        case False
        with v(1) Ret y have "sim ?st st" by (simp add: post_def)
        then have "st_store st = h1" by (simp add: sim_def)
        then show ?thesis
          using eq Ret y False cloneBoard_prefix[OF cb frame_refl[OF wf1]] by simp
      qed
    qed
  qed
qed

lemma solveWithOrder_cases:
  assumes wf: "wf_board h b"
  shows "solveWithOrder h b ids \<noteq> OutOfFuel \<and>
     (\<forall>r h'. solveWithOrder h b ids = Return (r, h') \<longrightarrow> take (length h) h' = h)"
proof -
  obtain h1 wb where cb: "cloneBoard h b = (h1, wb)" by (cases "cloneBoard h b")
  have wf1: "wf_board h1 wb" using wf cb by (rule cloneBoard_wf)
  let ?st = "\<lparr>os_store = h1, os_solution = []\<rparr>"
  let ?r = "solveOrdered' searchFuel wb ids 3 ?st"
  have v: "postO wb ?st ?r" "?r \<noteq> OutOfFuel"
    using solveOrdered'_verdict[where st="?st" and b=wb and fuel=searchFuel and ids=ids and m=3] wf1 card_empties_fuel[of h1 wb]
    by simp_all
  have eq: "solveWithOrder h b ids =
      (case ?r of Return (True, st) \<Rightarrow> Return (Some (os_solution st), os_store st)
       | Return (False, st) \<Rightarrow> Return (None, os_store st)
       | TypeError \<Rightarrow> TypeError | OutOfFuel \<Rightarrow> OutOfFuel)"
    by (simp add: solveWithOrder_def cb)
  show ?thesis
  proof (cases ?r)
    case OutOfFuel
    with v show ?thesis by simp
  next
    case TypeError
    with eq show ?thesis by simp
  next
    case Ret: (Return y)
    obtain res st where y: "y = (res, st)" by (cases y)
    have "frame wb h1 (os_store st)"
      using v(1) Ret y frame_refl[OF wf1]
      by (cases res) (auto simp: postO_def simO_def)
    then show ?thesis
      using eq Ret y cloneBoard_prefix[OF cb] by (cases res) simp_all
  qed
qed

lemma countSolutions_cases:
  assumes wf: "wf_board h b"
  shows "countSolutions h b ids k \<noteq> OutOfFuel \<and>
     (known ids \<longrightarrow> countSolutions h b ids k \<noteq> TypeError) \<and>
     (\<forall>n h'. countSolutions h b ids k = Return (n, h') \<longrightarrow>
        take (length h) h' = h \<and> 0 \<le> n \<and> (0 \<le> k \<longrightarrow> n \<le> k))"
proof -
  obtain h1 wb where cb: "cloneBoard h b = (h1, wb)" by (cases "cloneBoard h b")
  have wf1: "wf_board h1 wb" using wf cb by (rule cloneBoard_wf)
  let ?st = "\<lparr>c_store = h1, c_remaining = setOf ids, c_count = 0\<rparr>"
  let ?r = "countSolve' searchFuel wb k 3 ?st"
  have v: "case ?r of Return st' \<Rightarrow> postC k ?st st' | _ \<Rightarrow> True"
    "?r \<noteq> OutOfFuel" "known ids \<longrightarrow> ?r \<noteq> TypeError"
    using countSolve'_verdict[where st="?st" and b=wb and fuel=searchFuel and k=k and m=3] wf1 card_empties_fuel[of h1 wb]
    by (simp_all add: known_def set_setOf)
  have eq: "countSolutions h b ids k =
      (case ?r of Return st \<Rightarrow> Return (c_count st, c_store st)
       | TypeError \<Rightarrow> TypeError | OutOfFuel \<Rightarrow> OutOfFuel)"
    by (simp add: countSolutions_def cb)
  show ?thesis
  proof (cases ?r)
    case OutOfFuel
    with v show ?thesis by simp
  next
    case TypeError
    with v eq show ?thesis by simp
  next
    case Ret: (Return st)
    with v(1) have p: "postC k ?st st" by simp
    then have "c_store st = h1" by (simp add: postC_def)
    then have "take (length h) (c_store st) = h"
      using cloneBoard_prefix[OF cb frame_refl[OF wf1]] by simp
    then show ?thesis using eq Ret p by (simp add: postC_def)
  qed
qed


declare ORIENTATIONS_table [code]

section \<open>Claims about the placement engine and the entry points\<close>

text \<open>Concrete boards used in the examples below. The rows of each live at the
  addresses 0 to 4.\<close>

definition rowRefs :: board where
  "rowRefs = [0, 1, 2, 3, 4]"

definition emptyStore :: store where
  "emptyStore = replicate 5 (replicate 11 None)"

text \<open>The top-left cell holds piece A, all other cells are empty.\<close>

definition occupiedStore :: store where
  "occupiedStore = (Some ''A'' # replicate 10 None) # replicate 4 (replicate 11 None)"

text \<open>The only empty cells are the first three of the top row.\<close>

definition nearlyFullStore :: store where
  "nearlyFullStore =
     (replicate 3 None @ replicate 8 (Some ''X'')) # replicate 4 (replicate 11 (Some ''X''))"


definition lineAtOrigin :: placement where
  "lineAtOrigin = \<lparr>p_pieceId = ''L'', p_shape = [(0,0), (1,0), (2,0)], p_col = 0, p_row = 0,
                    p_orientationIndex = 0\<rparr>"

definition lineFilledRows :: store where
  "lineFilledRows =
     (replicate 3 (Some ''L'') @ replicate 8 (Some ''X'')) # replicate 4 (replicate 11 (Some ''X''))"

lemma wf_nearlyFull: "wf_board nearlyFullStore rowRefs"
  by code_simp

lemma solve_nearlyFull:
  "solve nearlyFullStore rowRefs [''L''] =
     Return (Some [lineAtOrigin], nearlyFullStore @ lineFilledRows)"
  by code_simp

lemma solveWithOrder_nearlyFull:
  "solveWithOrder nearlyFullStore rowRefs [''L''] =
     Return (Some [lineAtOrigin], nearlyFullStore @ lineFilledRows)"
  by code_simp

lemma countSolutions_nearlyFull:
  "countSolutions nearlyFullStore rowRefs [''L''] 2 = Return (1, nearlyFullStore @ nearlyFullStore)"
  by code_simp

text \<open>
  Claim C4, as amended. On a well-formed board, when \<^verbatim>\<open>canPlace\<close> holds for a shape at an
  offset (every translated cell is inside the grid and empty), placing a piece there and then
  removing it with the same arguments gives back the board exactly.
\<close>

theorem place_remove_restores:
  assumes "wf_board h b" "canPlace h b shape col row"
  shows "removePiece (placePiece h b pieceId shape col row) b pieceId shape col row = h"
  using assms by (rule place_then_remove)

theorem place_remove_restores_witness:
  "wf_board emptyStore rowRefs \<and> canPlace emptyStore rowRefs [(0,0), (1,0), (2,0)] 4 2 \<and>
   removePiece (placePiece emptyStore rowRefs ''L'' [(0,0), (1,0), (2,0)] 4 2) rowRefs ''L''
     [(0,0), (1,0), (2,0)] 4 2 = emptyStore"
proof -
  have 1: "wf_board emptyStore rowRefs" by code_simp
  have 2: "canPlace emptyStore rowRefs [(0,0), (1,0), (2,0)] 4 2" by code_simp
  from place_remove_restores[OF 1 2] 1 2 show ?thesis by simp
qed

text \<open>
  Claim C4 as stated fails: placing piece B on the cell that holds piece A and removing it
  again leaves that cell empty, not holding A.
\<close>

theorem place_remove_overwrites_counterexample:
  "wf_board occupiedStore rowRefs \<and>
   removePiece (placePiece occupiedStore rowRefs ''B'' [(0,0)] 0 0) rowRefs ''B'' [(0,0)] 0 0
     \<noteq> occupiedStore"
  by code_simp

text \<open>
  Claim C5. On a well-formed board, \<^verbatim>\<open>solve\<close>, \<^verbatim>\<open>solveWithOrder\<close> and
  \<^verbatim>\<open>countSolutions\<close> never exhaust the recursion budget of the model, and whenever one of
  them returns, every row array that existed before the call, in particular every row of
  the caller's board, is unchanged.
\<close>

theorem search_leaves_caller_board:
  assumes "wf_board h b"
  shows "solve h b ids \<noteq> OutOfFuel \<and>
     solveWithOrder h b ids \<noteq> OutOfFuel \<and>
     countSolutions h b ids maxCount \<noteq> OutOfFuel \<and>
     (\<forall>r h'. solve h b ids = Return (r, h') \<longrightarrow>
        take (length h) h' = h \<and> (\<forall>a \<in> set b. h' ! a = h ! a)) \<and>
     (\<forall>r h'. solveWithOrder h b ids = Return (r, h') \<longrightarrow>
        take (length h) h' = h \<and> (\<forall>a \<in> set b. h' ! a = h ! a)) \<and>
     (\<forall>n h'. countSolutions h b ids maxCount = Return (n, h') \<longrightarrow>
        take (length h) h' = h \<and> (\<forall>a \<in> set b. h' ! a = h ! a))"
proof -
  note s = solve_cases[OF assms, of ids]
  note o = solveWithOrder_cases[OF assms, of ids]
  note c = countSolutions_cases[OF assms, of ids maxCount]
  have rows: "\<forall>a \<in> set b. h' ! a = h ! a" if "take (length h) h' = h" for h'
    using caller_rows[OF assms that] by blast
  have 1: "take (length h) h' = h" if "solve h b ids = Return (r, h')" for r h'
    using s that by blast
  have 2: "take (length h) h' = h" if "solveWithOrder h b ids = Return (r, h')" for r h'
    using o that by blast
  have 3: "take (length h) h' = h" if "countSolutions h b ids maxCount = Return (n, h')" for n h'
    using c that by blast
  show ?thesis
  proof (intro conjI allI impI)
    show "solve h b ids \<noteq> OutOfFuel" using s by (rule conjunct1)
    show "solveWithOrder h b ids \<noteq> OutOfFuel" using o by (rule conjunct1)
    show "countSolutions h b ids maxCount \<noteq> OutOfFuel" using c by (rule conjunct1)
  qed (use 1 2 3 rows in \<open>blast+\<close>)
qed

theorem search_leaves_caller_board_witness:
  "wf_board nearlyFullStore rowRefs \<and>
   solve nearlyFullStore rowRefs [''L''] =
     Return (Some [lineAtOrigin], nearlyFullStore @ lineFilledRows) \<and>
   take (length nearlyFullStore) (nearlyFullStore @ lineFilledRows) = nearlyFullStore \<and>
   map (\<lambda>a. (nearlyFullStore @ lineFilledRows) ! a) rowRefs = map (\<lambda>a. nearlyFullStore ! a) rowRefs"
proof -
  note t = search_leaves_caller_board[OF wf_nearlyFull, of "[''L'']" 2]
  from t have "\<forall>r h'. solve nearlyFullStore rowRefs [''L''] = Return (r, h') \<longrightarrow>
        take (length nearlyFullStore) h' = nearlyFullStore \<and>
        (\<forall>a \<in> set rowRefs. h' ! a = nearlyFullStore ! a)"
    by (elim conjE)
  with solve_nearlyFull have
    1: "take (length nearlyFullStore) (nearlyFullStore @ lineFilledRows) = nearlyFullStore"
    and 2: "\<forall>a \<in> set rowRefs. (nearlyFullStore @ lineFilledRows) ! a = nearlyFullStore ! a"
    by blast+
  from 2 have "map (\<lambda>a. (nearlyFullStore @ lineFilledRows) ! a) rowRefs
      = map (\<lambda>a. nearlyFullStore ! a) rowRefs"
    by (intro map_cong refl) blast
  with 1 wf_nearlyFull solve_nearlyFull show ?thesis by blast
qed






text \<open>
  Claim C9. On a well-formed board, when \<^verbatim>\<open>solve\<close> returns a placement list, every
  placement lies inside the grid, no cell is covered twice, the placements use pairwise
  different piece identifiers taken from the available list, each with the shape found at
  its orientation index in that piece's orientation table, and the covered cells are
  exactly the cells that were empty in the input board.
\<close>

theorem solve_sound:
  assumes "wf_board h b" "solve h b ids = Return (Some sol, h')"
  shows "(\<forall>p \<in> set sol. set (cellsOf p) \<subseteq> grid) \<and>
     distinct (concat (map cellsOf sol)) \<and>
     distinct (map p_pieceId sol) \<and>
     set (map p_pieceId sol) \<subseteq> set ids \<and>
     (\<forall>p \<in> set sol. \<exists>os. ORIENTATIONS (p_pieceId p) = Some os \<and>
        p_orientationIndex p < length os \<and> os ! p_orientationIndex p = p_shape p) \<and>
     set (concat (map cellsOf sol)) = empties h b"
proof -
  from solve_cases[OF assms(1), of ids] assms(2)
  obtain h1 wb where cb: "cloneBoard h b = (h1, wb)" and t: "tiling wb h1 ids sol"
    by blast
  have e: "empties h1 wb = empties h b" using assms(1) cb by (rule cloneBoard_empties)
  from t have cover: "set (concat (map cellsOf sol)) = empties h b"
    and d1: "distinct (concat (map cellsOf sol))"
    and d2: "distinct (map p_pieceId sol)"
    and sub: "set (map p_pieceId sol) \<subseteq> set ids"
    and valid: "list_all validPlacement sol"
    by (simp_all add: tiling_def e)
  have inside: "set (cellsOf p) \<subseteq> grid" if "p \<in> set sol" for p
  proof -
    from that have "set (cellsOf p) \<subseteq> set (concat (map cellsOf sol))" by auto
    with cover empties_grid show ?thesis by blast
  qed
  have orient: "\<exists>os. ORIENTATIONS (p_pieceId p) = Some os \<and>
        p_orientationIndex p < length os \<and> os ! p_orientationIndex p = p_shape p"
    if "p \<in> set sol" for p
  proof -
    from valid that have "validPlacement p" by (simp add: list_all_iff)
    then show ?thesis by (auto simp: validPlacement_def split: option.splits)
  qed
  from inside d1 d2 sub orient cover show ?thesis by blast
qed

theorem solve_sound_witness:
  "wf_board nearlyFullStore rowRefs \<and>
   solve nearlyFullStore rowRefs [''L''] =
     Return (Some [lineAtOrigin], nearlyFullStore @ lineFilledRows) \<and>
   set (concat (map cellsOf [lineAtOrigin])) = empties nearlyFullStore rowRefs \<and>
   set (map p_pieceId [lineAtOrigin]) \<subseteq> set [''L'']"
proof -
  note t = solve_sound[OF wf_nearlyFull solve_nearlyFull]
  from t have "set (concat (map cellsOf [lineAtOrigin])) = empties nearlyFullStore rowRefs"
    by (elim conjE)
  moreover from t have "set (map p_pieceId [lineAtOrigin]) \<subseteq> set [''L'']"
    by (elim conjE)
  ultimately show ?thesis using wf_nearlyFull solve_nearlyFull by blast
qed

subsection \<open>The placements of the ordered search come from the orientation tables\<close>

definition solO :: "ostate \<Rightarrow> (bool \<times> ostate) outcome \<Rightarrow> bool" where
  "solO st r \<longleftrightarrow>
     (case r of
        Return (res, st') \<Rightarrow>
          if res then (\<exists>ps. os_solution st' = os_solution st @ ps \<and> list_all validPlacement ps)
          else os_solution st' = os_solution st
      | _ \<Rightarrow> True)"

lemma solO_False: "solO st (Return (False, st))"
  by (simp add: solO_def)

lemma solO_same:
  assumes "os_solution st' = os_solution st" "solO st' r"
  shows "solO st r"
  using assms by (auto simp: solO_def split: outcome.splits prod.splits if_splits)

lemma solO_continue:
  assumes "solO st r"
    and "\<And>st'. r = Return (False, st') \<Longrightarrow> os_solution st' = os_solution st \<Longrightarrow> solO st' (k st')"
  shows "solO st (continueO r k)"
proof (cases r)
  case (Return x)
  obtain res st' where x: "x = (res, st')" by (cases x)
  show ?thesis
  proof (cases res)
    case True
    then show ?thesis using assms(1) Return x by (simp add: continueO_def)
  next
    case False
    then have s: "os_solution st' = os_solution st" using assms(1) Return x by (simp add: solO_def)
    from assms(2)[OF _ s] Return x False have "solO st' (k st')" by simp
    from solO_same[OF s this] show ?thesis using Return x False by (simp add: continueO_def)
  qed
qed (use assms(1) in \<open>simp_all add: continueO_def\<close>)

lemma orderedCells_solO:
  assumes H: "\<And>ids m st. solO st (solveOrdered' fuel b ids m st)"
    and os: "ORIENTATIONS (ids ! i) = Some os" "oi < length os" "os ! oi = shape"
  shows "solO st (orderedCells fuel b target ids i oi shape cells st)"
proof (induction cells arbitrary: st)
  case Nil
  show ?case by (simp add: solO_False)
next
  case (Cons x cells)
  obtain dc dr where x: "x = (dc, dr)" by (cases x)
  let ?col = "fst target - dc" and ?row = "snd target - dr"
  let ?h1 = "placePiece (os_store st) b (ids ! i) shape ?col ?row"
  let ?rest = "take i ids @ drop (Suc i) ids"
  show ?case
  proof (cases "canPlace (os_store st) b shape ?col ?row")
    case False
    show ?thesis unfolding x orderedCells_skip[OF False] by (rule Cons.IH)
  next
    case cp: True
    show ?thesis
    proof (cases "newMinSize ?rest")
      case OutOfFuel
      then show ?thesis using newMinSize_result by blast
    next
      case TypeError
      show ?thesis unfolding x orderedCells_throw[OF cp TypeError] by (simp add: solO_def)
    next
      case (Return newMin)
      show ?thesis
      proof (cases "hasDeadIslands ?h1 b newMin")
        case True
        let ?st' = "st\<lparr>os_store := removePiece ?h1 b (ids ! i) shape ?col ?row\<rparr>"
        have "solO ?st' (orderedCells fuel b target ids i oi shape cells ?st')" by (rule Cons.IH)
        then have "solO st (orderedCells fuel b target ids i oi shape cells ?st')"
          by (rule solO_same[rotated]) simp
        then show ?thesis unfolding x orderedCells_pruned[OF cp Return True] .
      next
        case nd: False
        let ?p = "\<lparr>p_pieceId = ids ! i, p_shape = shape, p_col = ?col,
                    p_row = ?row, p_orientationIndex = oi\<rparr>"
        let ?st1 = "st\<lparr>os_store := ?h1, os_solution := os_solution st @ [?p]\<rparr>"
        let ?r = "solveOrdered' fuel b ?rest newMin ?st1"
        have Hr: "solO ?st1 ?r" by (rule H)
        have vp: "validPlacement ?p" using os by (simp add: validPlacement_def)
        show ?thesis
        proof (cases ?r)
          case OutOfFuel
          then show ?thesis
            unfolding x orderedCells_recurse[OF cp Return nd]
            by (simp add: continueO_def solO_def)
        next
          case TypeError
          then show ?thesis
            unfolding x orderedCells_recurse[OF cp Return nd]
            by (simp add: continueO_def solO_def)
        next
          case Ret: (Return y)
          obtain res st2 where y: "y = (res, st2)" by (cases y)
          show ?thesis
          proof (cases res)
            case True
            with Hr Ret y obtain ps where ps: "os_solution st2 = (os_solution st @ [?p]) @ ps"
              "list_all validPlacement ps"
              by (auto simp: solO_def)
            have "os_solution st2 = os_solution st @ (?p # ps)" using ps(1) by simp
            moreover have "list_all validPlacement (?p # ps)" using vp ps(2) by simp
            ultimately have "\<exists>ps'. os_solution st2 = os_solution st @ ps' \<and>
                list_all validPlacement ps'" by blast
            then show ?thesis
              unfolding x orderedCells_recurse[OF cp Return nd]
              using Ret y True by (simp add: continueO_def solO_def)
          next
            case False
            with Hr Ret y have s12: "os_solution st2 = os_solution st @ [?p]"
              by (simp add: solO_def)
            let ?st3 = "st2\<lparr>os_solution := butlast (os_solution st2),
                   os_store := removePiece (os_store st2) b (ids ! i) shape ?col ?row\<rparr>"
            have s: "os_solution ?st3 = os_solution st" using s12 by simp
            have "solO ?st3 (orderedCells fuel b target ids i oi shape cells ?st3)"
              by (rule Cons.IH)
            from solO_same[OF s this] show ?thesis
              unfolding x orderedCells_recurse[OF cp Return nd]
              using Ret y False by (simp add: continueO_def)
          qed
        qed
      qed
    qed
  qed
qed

lemma orderedOrients_solO:
  assumes H: "\<And>ids m st. solO st (solveOrdered' fuel b ids m st)"
    and os: "ORIENTATIONS (ids ! i) = Some os" "drop oi os = shapes"
  shows "solO st (orderedOrients fuel b target ids i oi shapes st)"
  using os(2)
proof (induction shapes arbitrary: st oi)
  case Nil
  show ?case by (simp add: solO_False)
next
  case (Cons shape shapes)
  have lt: "oi < length os"
    using Cons.prems by (cases "oi < length os") simp_all
  have oi: "os ! oi = shape" "drop (Suc oi) os = shapes"
    using Cons.prems Cons_nth_drop_Suc[OF lt] by simp_all
  show ?case
    unfolding orderedOrients_Cons
  proof (rule solO_continue)
    show "solO st (orderedCells fuel b target ids i oi shape shape st)"
      using H os(1) lt oi(1) by (rule orderedCells_solO)
  next
    fix st'
    show "solO st' (orderedOrients fuel b target ids i (Suc oi) shapes st')"
      using oi(2) by (rule Cons.IH)
  qed
qed

lemma orderedPieces_solO:
  assumes H: "\<And>ids m st. solO st (solveOrdered' fuel b ids m st)"
  shows "solO st (orderedPieces fuel b target ids is st)"
proof (induction "is" arbitrary: st)
  case Nil
  show ?case by (simp add: solO_False)
next
  case (Cons i "is")
  show ?case
  proof (cases "ORIENTATIONS (ids ! i)")
    case None
    then show ?thesis unfolding orderedPieces_Cons None by (simp add: solO_def)
  next
    case (Some os)
    show ?thesis
      unfolding orderedPieces_Cons Some option.case
    proof (rule solO_continue)
      show "solO st (orderedOrients fuel b target ids i 0 os st)"
        using H Some by (rule orderedOrients_solO) simp
    next
      fix st'
      show "solO st' (orderedPieces fuel b target ids is st')" by (rule Cons.IH)
    qed
  qed
qed

lemma solveOrdered'_solO: "solO st (solveOrdered' fuel b ids m st)"
proof (induction fuel arbitrary: ids m st)
  case 0
  show ?case by (simp add: solO_def)
next
  case (Suc fuel)
  show ?case
  proof (cases "findFirstEmpty (os_store st) b")
    case None
    then show ?thesis by (simp add: solO_def)
  next
    case (Some target)
    have "solO st (orderedPieces fuel b target ids [0..<length ids] st)"
      using Suc.IH by (rule orderedPieces_solO)
    then show ?thesis using Some by simp
  qed
qed

lemma solveWithOrder_valid:
  assumes "solveWithOrder h b ids = Return (Some sol, h')"
  shows "list_all validPlacement sol"
proof -
  obtain h1 wb where cb: "cloneBoard h b = (h1, wb)" by (cases "cloneBoard h b")
  let ?st = "\<lparr>os_store = h1, os_solution = []\<rparr>"
  let ?r = "solveOrdered' searchFuel wb ids 3 ?st"
  have v: "solO ?st ?r" by (rule solveOrdered'_solO)
  have eq: "solveWithOrder h b ids =
      (case ?r of Return (True, st) \<Rightarrow> Return (Some (os_solution st), os_store st)
       | Return (False, st) \<Rightarrow> Return (None, os_store st)
       | TypeError \<Rightarrow> TypeError | OutOfFuel \<Rightarrow> OutOfFuel)"
    by (simp add: solveWithOrder_def cb)
  show ?thesis
  proof (cases ?r)
    case OutOfFuel
    with eq assms show ?thesis by simp
  next
    case TypeError
    with eq assms show ?thesis by simp
  next
    case Ret: (Return y)
    obtain res st where y: "y = (res, st)" by (cases y)
    show ?thesis
    proof (cases res)
      case True
      with eq assms Ret y have "sol = os_solution st" by simp
      moreover from v Ret y True have "list_all validPlacement (os_solution st)"
        by (auto simp: solO_def)
      ultimately show ?thesis by simp
    next
      case False
      with eq assms Ret y show ?thesis by simp
    qed
  qed
qed

lemma base_shapes_distinct: "list_all (\<lambda>p. distinct (pshape p)) PIECES"
  by (simp add: PIECES_def)

lemma table_entry_cells:
  assumes "PIECE_MAP i = Some p" "ORIENTATIONS i = Some os" "s \<in> set os"
  shows "length s = length (pshape p) \<and> distinct s \<and> distinct (pshape p) \<and>
         card (set s) = card (set (pshape p))"
proof -
  from assms obtain q where q: "q \<in> set PIECES" "pid q = i" "os = getAllOrientations (pshape q)"
    by (auto simp: ORIENTATIONS_Some)
  from assms have p: "p \<in> set PIECES" "pid p = i" by (auto simp: PIECE_MAP_Some)
  have "p = q" using p q distinct_piece_ids
    by (metis distinct_map inj_on_def)
  with q assms have l: "length s = length (pshape p)" by (simp add: getAllOrientations_lengths)
  have d: "distinct s" using assms(2,3) by (rule orientation_distinct_cells)
  have dp: "distinct (pshape p)" using p(1) base_shapes_distinct by (simp add: list_all_iff)
  have "card (set s) = length s" using d by (rule distinct_card)
  moreover have "card (set (pshape p)) = length (pshape p)" using dp by (rule distinct_card)
  ultimately show ?thesis using l d dp by simp
qed

lemma valid_placement_cells:
  assumes "validPlacement q"
  shows "\<exists>pc. PIECE_MAP (p_pieceId q) = Some pc \<and>
          length (p_shape q) = length (pshape pc) \<and> distinct (p_shape q) \<and>
          distinct (cellsOf q) \<and> length (cellsOf q) = length (pshape pc)"
proof -
  from assms obtain os where os: "ORIENTATIONS (p_pieceId q) = Some os"
    "p_orientationIndex q < length os" "os ! p_orientationIndex q = p_shape q"
    by (auto simp: validPlacement_def split: option.splits)
  then obtain pc where pc: "pc \<in> set PIECES" "pid pc = p_pieceId q"
    "os = getAllOrientations (pshape pc)"
    by (auto simp: ORIENTATIONS_Some)
  have pm: "PIECE_MAP (p_pieceId q) = Some pc" using pc by (simp add: PIECE_MAP_Some)
  from os(2,3) have mem: "p_shape q \<in> set os" by (metis nth_mem)
  from table_entry_cells[OF pm os(1) mem]
  have l: "length (p_shape q) = length (pshape pc)" and d: "distinct (p_shape q)" by simp_all
  from d have dc: "distinct (cellsOf q)"
    by (auto simp: cellsOf_def cellsAt_def distinct_map inj_on_def)
  have lc: "length (cellsOf q) = length (pshape pc)" using l by (simp add: cellsOf_def cellsAt_def)
  from pm l d dc lc show ?thesis by blast
qed

lemma valid_placements_sum:
  assumes "list_all validPlacement sol"
  shows "sum_list (map (\<lambda>q. length (p_shape q)) sol) =
         sum_list (map (\<lambda>q. length (pshape (the (PIECE_MAP (p_pieceId q))))) sol)"
proof -
  have "map (\<lambda>q. length (p_shape q)) sol =
        map (\<lambda>q. length (pshape (the (PIECE_MAP (p_pieceId q))))) sol"
  proof (rule map_cong[OF refl])
    fix q assume "q \<in> set sol"
    with assms have "validPlacement q" by (simp add: list_all_iff)
    from valid_placement_cells[OF this]
    show "length (p_shape q) = length (pshape (the (PIECE_MAP (p_pieceId q))))"
      by auto
  qed
  then show ?thesis by (rule arg_cong)
qed

lemma solve_valid:
  assumes "wf_board h b" "solve h b ids = Return (Some sol, h')"
  shows "list_all validPlacement sol"
proof -
  from solve_cases[OF assms(1), of ids] assms(2)
  obtain h1 wb where "tiling wb h1 ids sol" by blast
  then show ?thesis by (simp add: tiling_def)
qed

text \<open>
  Claim C10. Every shape in a piece's orientation table has exactly the cells of the base
  shape in number: its list of cells is as long as the base shape's and has no repeated
  cell, as the base shape has none, so no cell was added, dropped or merged. Hence every
  placement returned by \<^verbatim>\<open>solve\<close> or by \<^verbatim>\<open>solveWithOrder\<close> has as many pairwise different
  cells, in its shape and on the board, as the base shape of its piece, and the cell counts
  of the placements sum to the declared sizes of the pieces used.
\<close>

theorem orientation_cell_counts:
  "(PIECE_MAP i = Some p \<and> ORIENTATIONS i = Some os \<and> s \<in> set os \<longrightarrow>
      length s = length (pshape p) \<and> distinct s \<and> distinct (pshape p) \<and>
      card (set s) = card (set (pshape p))) \<and>
   ((wf_board h b \<and> solve h b ids = Return (Some sol, h')) \<or>
    solveWithOrder h b ids = Return (Some sol, h') \<longrightarrow>
      (\<forall>q \<in> set sol. \<exists>pc. PIECE_MAP (p_pieceId q) = Some pc \<and>
          length (p_shape q) = length (pshape pc) \<and> distinct (p_shape q) \<and>
          distinct (cellsOf q) \<and> length (cellsOf q) = length (pshape pc)) \<and>
      sum_list (map (\<lambda>q. length (p_shape q)) sol) =
      sum_list (map (\<lambda>q. length (pshape (the (PIECE_MAP (p_pieceId q))))) sol))"
proof (intro conjI impI)
  assume a: "(wf_board h b \<and> solve h b ids = Return (Some sol, h')) \<or>
    solveWithOrder h b ids = Return (Some sol, h')"
  then have v: "list_all validPlacement sol"
    using solve_valid solveWithOrder_valid by blast
  show "\<forall>q \<in> set sol. \<exists>pc. PIECE_MAP (p_pieceId q) = Some pc \<and>
          length (p_shape q) = length (pshape pc) \<and> distinct (p_shape q) \<and>
          distinct (cellsOf q) \<and> length (cellsOf q) = length (pshape pc)"
  proof
    fix q assume "q \<in> set sol"
    with v have "validPlacement q" by (simp add: list_all_iff)
    then show "\<exists>pc. PIECE_MAP (p_pieceId q) = Some pc \<and>
          length (p_shape q) = length (pshape pc) \<and> distinct (p_shape q) \<and>
          distinct (cellsOf q) \<and> length (cellsOf q) = length (pshape pc)"
      by (rule valid_placement_cells)
  qed
  from v show "sum_list (map (\<lambda>q. length (p_shape q)) sol) =
      sum_list (map (\<lambda>q. length (pshape (the (PIECE_MAP (p_pieceId q))))) sol)"
    by (rule valid_placements_sum)
qed (use table_entry_cells[of i p os s] in simp_all)

lemma PIECE_MAP_L: "PIECE_MAP ''L'' = Some \<lparr>pid = ''L'', pshape = [(0,0), (1,0), (2,0)]\<rparr>"
  by code_simp

lemma ORIENTATIONS_L:
  "ORIENTATIONS ''L'' = Some [[(0, 0), (1, 0), (2, 0)], [(0, 0), (0, 1), (0, 2)]]"
  by code_simp

theorem orientation_cell_counts_witness:
  "PIECE_MAP ''L'' = Some \<lparr>pid = ''L'', pshape = [(0,0), (1,0), (2,0)]\<rparr> \<and>
   ORIENTATIONS ''L'' = Some [[(0, 0), (1, 0), (2, 0)], [(0, 0), (0, 1), (0, 2)]] \<and>
   length [(0, 0), (0, 1), (0::int, 2::int)] = length [(0,0), (1,0), (2::int, 0::int)] \<and>
   distinct [(0, 0), (0, 1), (0::int, 2::int)] \<and>
   card (set [(0, 0), (0, 1), (0::int, 2::int)]) = card (set [(0,0), (1,0), (2::int, 0::int)]) \<and>
   wf_board nearlyFullStore rowRefs \<and>
   solve nearlyFullStore rowRefs [''L''] =
     Return (Some [lineAtOrigin], nearlyFullStore @ lineFilledRows) \<and>
   solveWithOrder nearlyFullStore rowRefs [''L''] =
     Return (Some [lineAtOrigin], nearlyFullStore @ lineFilledRows) \<and>
   sum_list (map (\<lambda>q. length (p_shape q)) [lineAtOrigin]) =
   sum_list (map (\<lambda>q. length (pshape (the (PIECE_MAP (p_pieceId q))))) [lineAtOrigin])"
proof -
  note t = orientation_cell_counts[of "''L''" "\<lparr>pid = ''L'', pshape = [(0,0), (1,0), (2,0)]\<rparr>"
      "[[(0, 0), (1, 0), (2, 0)], [(0, 0), (0, 1), (0, 2)]]" "[(0, 0), (0, 1), (0, 2)]"
      nearlyFullStore rowRefs "[''L'']" "[lineAtOrigin]" "nearlyFullStore @ lineFilledRows"]
  from t PIECE_MAP_L ORIENTATIONS_L
  have a: "length [(0, 0), (0, 1), (0::int, 2::int)] = length [(0,0), (1,0), (2::int, 0::int)] \<and>
   distinct [(0, 0), (0, 1), (0::int, 2::int)] \<and>
   card (set [(0, 0), (0, 1), (0::int, 2::int)]) = card (set [(0,0), (1,0), (2::int, 0::int)])"
    by simp
  from t solveWithOrder_nearlyFull
  have "sum_list (map (\<lambda>q. length (p_shape q)) [lineAtOrigin]) =
   sum_list (map (\<lambda>q. length (pshape (the (PIECE_MAP (p_pieceId q))))) [lineAtOrigin])"
    by blast
  with a PIECE_MAP_L ORIENTATIONS_L wf_nearlyFull solve_nearlyFull solveWithOrder_nearlyFull
  show ?thesis by simp
qed


section \<open>Island pruning finds the small regions\<close>

definition neighbours :: "int \<times> int \<Rightarrow> (int \<times> int) list" where
  "neighbours = (\<lambda>(c, r). [(c - 1, r), (c + 1, r), (c, r - 1), (c, r + 1)])"

text \<open>Two empty cells of the grid are adjacent when they share an edge; the region of
  a cell is everything reachable from it through adjacent empty cells.\<close>

definition emptyAdj :: "store \<Rightarrow> board \<Rightarrow> ((int \<times> int) \<times> (int \<times> int)) set" where
  "emptyAdj h b = {(x, y). x \<in> empties h b \<and> y \<in> empties h b \<and> y \<in> set (neighbours x)}"

definition region :: "store \<Rightarrow> board \<Rightarrow> int \<times> int \<Rightarrow> (int \<times> int) set" where
  "region h b x = {y. (x, y) \<in> (emptyAdj h b)\<^sup>*}"

lemma neighbours_sym: "y \<in> set (neighbours x) \<Longrightarrow> x \<in> set (neighbours y)"
  by (cases x; cases y) (auto simp: neighbours_def)

lemma sym_emptyAdj: "sym (emptyAdj h b)"
  by (auto simp: sym_def emptyAdj_def neighbours_sym)

lemma region_refl: "x \<in> region h b x"
  by (simp add: region_def)

lemma region_sym: "y \<in> region h b x \<Longrightarrow> x \<in> region h b y"
  unfolding region_def using sym_rtrancl[OF sym_emptyAdj, of h b]
  by (simp add: symD)

lemma region_trans: "y \<in> region h b x \<Longrightarrow> z \<in> region h b y \<Longrightarrow> z \<in> region h b x"
  by (auto simp: region_def)

lemma region_eq: "y \<in> region h b x \<Longrightarrow> region h b y = region h b x"
  using region_sym region_trans by blast

lemma region_step:
  "y \<in> region h b x \<Longrightarrow> (y, z) \<in> emptyAdj h b \<Longrightarrow> z \<in> region h b x"
  by (auto simp: region_def)

lemma region_subset:
  assumes "x \<in> empties h b"
  shows "region h b x \<subseteq> empties h b"
proof
  fix y assume "y \<in> region h b x"
  then have "(x, y) \<in> (emptyAdj h b)\<^sup>*" by (simp add: region_def)
  then show "y \<in> empties h b"
    using assms by (induction rule: rtrancl_induct) (auto simp: emptyAdj_def)
qed

lemma finite_region: "x \<in> empties h b \<Longrightarrow> finite (region h b x)"
  by (rule finite_subset[OF region_subset finite_empties])

lemma region_closedI:
  assumes "x \<in> D" and "\<And>d n. d \<in> D \<Longrightarrow> (d, n) \<in> emptyAdj h b \<Longrightarrow> n \<in> D"
  shows "region h b x \<subseteq> D"
proof
  fix y assume "y \<in> region h b x"
  then have "(x, y) \<in> (emptyAdj h b)\<^sup>*" by (simp add: region_def)
  then show "y \<in> D"
    using assms by (induction rule: rtrancl_induct) auto
qed

lemma visitNeighbors_spec:
  assumes "visitNeighbors h b ns (q, v) = (q', v')"
  shows "\<exists>new. q' = q @ new \<and> v' = v \<union> set new \<and> distinct new \<and>
           set new = (set ns \<inter> empties h b) - v"
  using assms
proof (induction ns arbitrary: q v)
  case Nil
  then show ?case by simp
next
  case (Cons n ns)
  obtain nc nr where n: "n = (nc, nr)" by (cases n)
  have el: "(0 \<le> nr \<and> nr < ROWS \<and> 0 \<le> nc \<and> nc < COLS \<and> isNull h b nr nc \<and> (nc, nr) \<notin> v)
      \<longleftrightarrow> (n \<in> empties h b \<and> n \<notin> v)"
    by (auto simp: n empties_def grid_iff)
  show ?case
  proof (cases "n \<in> empties h b \<and> n \<notin> v")
    case True
    then have "visitNeighbors h b ns (q @ [n], insert n v) = (q', v')"
      using Cons.prems el by (auto simp: n split: if_splits)
    from Cons.IH[OF this] obtain new where new: "q' = (q @ [n]) @ new"
      "v' = insert n v \<union> set new" "distinct new"
      "set new = (set ns \<inter> empties h b) - insert n v"
      by blast
    have "q' = q @ (n # new)" using new(1) by simp
    moreover have "v' = v \<union> set (n # new)" using new(2) by auto
    moreover have "distinct (n # new)" using new(3,4) by auto
    moreover have "set (n # new) = (set (n # ns) \<inter> empties h b) - v"
      using new(4) True by auto
    ultimately show ?thesis by blast
  next
    case False
    then have "visitNeighbors h b ns (q, v) = (q', v')"
      using Cons.prems el by (auto simp: n split: if_splits)
    from Cons.IH[OF this] obtain new where new: "q' = q @ new"
      "v' = v \<union> set new" "distinct new" "set new = (set ns \<inter> empties h b) - v"
      by blast
    have "set new = (set (n # ns) \<inter> empties h b) - v" using new(4) False by auto
    with new show ?thesis by blast
  qed
qed

text \<open>The invariant of the breadth-first loop started at \<open>x\<close> with the cells \<open>V0\<close>
  marked by earlier traversals.\<close>

definition bfsInv ::
  "store \<Rightarrow> board \<Rightarrow> int \<times> int \<Rightarrow> (int \<times> int) set \<Rightarrow> (int \<times> int) list
     \<Rightarrow> (int \<times> int) set \<Rightarrow> nat \<Rightarrow> bool" where
  "bfsInv h b x V0 q v sz \<longleftrightarrow>
     x \<in> empties h b \<and> V0 \<inter> region h b x = {} \<and> V0 \<subseteq> v \<and>
     set q \<subseteq> v - V0 \<and> distinct q \<and> v - V0 \<subseteq> region h b x \<and> x \<in> v \<and>
     card ((v - V0) - set q) = sz \<and>
     (\<forall>d \<in> (v - V0) - set q. \<forall>n \<in> set (neighbours d). n \<in> empties h b \<longrightarrow> n \<in> v)"

lemma bfsInv_done:
  assumes "bfsInv h b x V0 [] v sz"
  shows "sz = card (region h b x) \<and> v = V0 \<union> region h b x"
proof -
  from assms have x: "x \<in> empties h b" and dis: "V0 \<inter> region h b x = {}" and sub: "V0 \<subseteq> v"
    and reach: "v - V0 \<subseteq> region h b x" and xv: "x \<in> v" and card: "card (v - V0) = sz"
    and cl: "\<forall>d \<in> v - V0. \<forall>n \<in> set (neighbours d). n \<in> empties h b \<longrightarrow> n \<in> v"
    by (simp_all add: bfsInv_def)
  have xD: "x \<in> v - V0" using xv dis region_refl[of x h b] by auto
  have "region h b x \<subseteq> v - V0"
  proof (rule region_closedI[OF xD])
    fix d n assume d: "d \<in> v - V0" and e: "(d, n) \<in> emptyAdj h b"
    then have "n \<in> v" using cl by (auto simp: emptyAdj_def)
    moreover have "n \<in> region h b x" using reach d e region_step by blast
    ultimately show "n \<in> v - V0" using dis by auto
  qed
  with reach have "v - V0 = region h b x" by blast
  with card sub show ?thesis by auto
qed

lemma bfsInv_step:
  assumes inv: "bfsInv h b x V0 (y # queue) v sz"
    and vn: "visitNeighbors h b (neighbours y) (queue, v) = (q', v')"
  shows "bfsInv h b x V0 q' v' (sz + 1)"
proof -
  from inv have x: "x \<in> empties h b" and dis: "V0 \<inter> region h b x = {}" and sub: "V0 \<subseteq> v"
    and q: "set (y # queue) \<subseteq> v - V0" and dq: "distinct (y # queue)"
    and reach: "v - V0 \<subseteq> region h b x" and xv: "x \<in> v"
    and card: "card ((v - V0) - set (y # queue)) = sz"
    and cl: "\<forall>d \<in> (v - V0) - set (y # queue). \<forall>n \<in> set (neighbours d).
               n \<in> empties h b \<longrightarrow> n \<in> v"
    unfolding bfsInv_def by blast+
  from visitNeighbors_spec[OF vn] obtain new where new: "q' = queue @ new"
    "v' = v \<union> set new" "distinct new" "set new = (set (neighbours y) \<inter> empties h b) - v"
    by blast
  have yv: "y \<in> v" "y \<notin> V0" "y \<notin> set queue" "set queue \<subseteq> v - V0" "distinct queue"
    using q dq by auto
  have nv: "set new \<inter> v = {}" using new(4) by blast
  have yr: "y \<in> region h b x" using yv reach by blast
  have ye: "y \<in> empties h b" using yr region_subset[OF x] by blast
  have newr: "set new \<subseteq> region h b x"
  proof
    fix n assume "n \<in> set new"
    then have "n \<in> set (neighbours y)" "n \<in> empties h b" using new(4) by blast+
    then have "(y, n) \<in> emptyAdj h b" using ye by (simp add: emptyAdj_def)
    with yr show "n \<in> region h b x" by (rule region_step)
  qed
  have sq': "set q' = set queue \<union> set new" by (simp add: new(1))
  have D: "(v' - V0) - set q' = insert y ((v - V0) - set (y # queue))"
    unfolding sq' new(2) using yv nv by auto
  have fin: "finite ((v - V0) - set (y # queue))"
    by (rule finite_Diff[OF finite_subset[OF reach finite_region[OF x]]])
  have ynot: "y \<notin> (v - V0) - set (y # queue)" by simp
  have c': "card ((v' - V0) - set q') = sz + 1"
    unfolding D using card fin ynot by simp
  have cl': "\<forall>d \<in> (v' - V0) - set q'. \<forall>n \<in> set (neighbours d).
      n \<in> empties h b \<longrightarrow> n \<in> v'"
  proof (intro ballI impI)
    fix d n assume d: "d \<in> (v' - V0) - set q'" and n: "n \<in> set (neighbours d)" "n \<in> empties h b"
    from d have "d = y \<or> d \<in> (v - V0) - set (y # queue)" unfolding D by blast
    then show "n \<in> v'"
    proof
      assume "d = y"
      with n new(4) show ?thesis unfolding new(2) by blast
    next
      assume "d \<in> (v - V0) - set (y # queue)"
      with cl n have "n \<in> v" by blast
      then show ?thesis unfolding new(2) by blast
    qed
  qed
  have q'sub: "set q' \<subseteq> v' - V0" unfolding sq' new(2) using yv(4) nv sub by blast
  have dq': "distinct q'" unfolding new(1) using new(3) yv(4,5) nv by auto
  have reach': "v' - V0 \<subseteq> region h b x" unfolding new(2) using reach newr by blast
  have sub': "V0 \<subseteq> v'" unfolding new(2) using sub by blast
  have xv': "x \<in> v'" unfolding new(2) using xv by blast
  show ?thesis
    unfolding bfsInv_def
    using x dis sub' q'sub dq' reach' xv' c' cl' by (intro conjI)
qed

lemma bfsLoop_correct:
  "bfsInv h b x V0 q v sz \<Longrightarrow> bfsLoop h b q v sz = (card (region h b x), V0 \<union> region h b x)"
proof (induction h b q v sz rule: bfsLoop.induct)
  case (1 h b visited sz)
  from bfsInv_done[OF this] show ?case by simp
next
  case (2 h b c r queue visited sz)
  obtain q' v' where vn: "visitNeighbors h b (neighbours (c, r)) (queue, visited) = (q', v')"
    by (cases "visitNeighbors h b (neighbours (c, r)) (queue, visited)")
  have inv': "bfsInv h b x V0 q' v' (sz + 1)" using "2.prems" vn by (rule bfsInv_step)
  have vn': "visitNeighbors h b [(c - 1, r), (c + 1, r), (c, r - 1), (c, r + 1)] (queue, visited)
      = (q', v')"
    using vn by (simp add: neighbours_def)
  have "bfsLoop h b q' v' (sz + 1) = (card (region h b x), V0 \<union> region h b x)"
    using "2.IH"[OF vn'[symmetric] inv'] .
  then show ?case using vn' by simp
qed

lemma bfsRegionSize_correct:
  assumes "x \<in> empties h b" "V0 \<inter> region h b x = {}"
  shows "bfsRegionSize h b V0 (fst x) (snd x) = (card (region h b x), V0 \<union> region h b x)"
proof -
  have xr: "x \<in> region h b x" by (rule region_refl)
  have e: "insert x V0 - V0 - set [x] = {}" by auto
  have "bfsInv h b x V0 [x] (insert x V0) 0"
    unfolding bfsInv_def e
  proof (intro conjI)
    show "x \<in> empties h b" by (rule assms(1))
    show "V0 \<inter> region h b x = {}" by (rule assms(2))
    show "V0 \<subseteq> insert x V0" by blast
    show "set [x] \<subseteq> insert x V0 - V0" using assms(2) xr by auto
    show "distinct [x]" by simp
    show "insert x V0 - V0 \<subseteq> region h b x" using xr by blast
    show "x \<in> insert x V0" by simp
    show "card ({} :: (int \<times> int) set) = 0" by simp
    show "\<forall>d \<in> {}. \<forall>n \<in> set (neighbours d). n \<in> empties h b \<longrightarrow> n \<in> insert x V0"
      by simp
  qed
  from bfsLoop_correct[OF this] show ?thesis by (simp add: bfsRegionSize_def)
qed

text \<open>\<open>closedSet\<close>: a set of empty cells that contains the whole region of each of its
  cells, as the marked cells are between two traversals.\<close>

definition closedSet :: "store \<Rightarrow> board \<Rightarrow> (int \<times> int) set \<Rightarrow> bool" where
  "closedSet h b V \<longleftrightarrow> (\<forall>y \<in> V. y \<in> empties h b \<and> region h b y \<subseteq> V)"

lemma closedSet_disjoint:
  assumes "closedSet h b V" "x \<notin> V"
  shows "V \<inter> region h b x = {}"
proof (rule ccontr)
  assume "V \<inter> region h b x \<noteq> {}"
  then obtain y where y: "y \<in> V" "y \<in> region h b x" by blast
  then have "x \<in> region h b y" by (simp add: region_sym)
  with y(1) assms(1) have "x \<in> V" by (auto simp: closedSet_def)
  with assms(2) show False by simp
qed

lemma closedSet_add:
  assumes "closedSet h b V" "x \<in> empties h b"
  shows "closedSet h b (V \<union> region h b x)"
  unfolding closedSet_def
proof
  fix y assume "y \<in> V \<union> region h b x"
  then show "y \<in> empties h b \<and> region h b y \<subseteq> V \<union> region h b x"
  proof
    assume "y \<in> V"
    with assms(1) show ?thesis by (auto simp: closedSet_def)
  next
    assume "y \<in> region h b x"
    then show ?thesis using region_eq[of y h b x] region_subset[OF assms(2)] by auto
  qed
qed

lemma islandScan_correct:
  assumes "closedSet h b V" "set cells \<subseteq> grid"
  shows "islandScan h b m cells V \<longleftrightarrow>
     (\<exists>x \<in> set cells. x \<in> empties h b \<and> x \<notin> V \<and> card (region h b x) < m)"
  using assms
proof (induction cells arbitrary: V)
  case Nil
  then show ?case by simp
next
  case (Cons x cells)
  obtain c r where x: "x = (c, r)" by (cases x)
  have g: "(c, r) \<in> grid" "set cells \<subseteq> grid" using Cons.prems(2) x by auto
  have el: "isNull h b r c \<longleftrightarrow> x \<in> empties h b" using g by (simp add: empties_def x)
  show ?case
  proof (cases "x \<in> empties h b \<and> x \<notin> V")
    case False
    then have "islandScan h b m (x # cells) V = islandScan h b m cells V"
      using el by (auto simp: x)
    then show ?thesis using Cons.IH[OF Cons.prems(1) g(2)] False by auto
  next
    case True
    let ?R = "region h b x"
    have bfs: "bfsRegionSize h b V c r = (card ?R, V \<union> ?R)"
      using bfsRegionSize_correct[of x h b V] True closedSet_disjoint[OF Cons.prems(1)]
      by (simp add: x)
    show ?thesis
    proof (cases "card ?R < m")
      case small: True
      then have "islandScan h b m (x # cells) V" using True el bfs by (simp add: x)
      then show ?thesis using True small by auto
    next
      case big: False
      have eq: "islandScan h b m (x # cells) V = islandScan h b m cells (V \<union> ?R)"
        using True el bfs big by (simp add: x)
      have cl: "closedSet h b (V \<union> ?R)"
        using Cons.prems(1) True by (simp add: closedSet_add)
      have "(\<exists>y \<in> set cells. y \<in> empties h b \<and> y \<notin> V \<union> ?R \<and> card (region h b y) < m)
          \<longleftrightarrow> (\<exists>y \<in> set (x # cells). y \<in> empties h b \<and> y \<notin> V \<and> card (region h b y) < m)"
        (is "?A \<longleftrightarrow> ?B")
      proof
        assume ?A then show ?B by auto
      next
        assume ?B
        then obtain y where y: "y \<in> set (x # cells)" "y \<in> empties h b" "y \<notin> V"
          "card (region h b y) < m" by blast
        have "y \<notin> ?R"
        proof
          assume "y \<in> ?R"
          then have "region h b y = ?R" by (rule region_eq)
          with y(4) big show False by simp
        qed
        moreover from this have "y \<noteq> x" using region_refl[of x h b] by auto
        ultimately show ?A using y by auto
      qed
      then show ?thesis using eq Cons.IH[OF cl g(2)] by simp
    qed
  qed
qed

lemma card_region_pos:
  assumes "x \<in> empties h b"
  shows "0 < card (region h b x)"
  using finite_region[OF assms] region_refl[of x h b] by (auto simp: card_gt_0_iff)

lemma hasDeadIslands_region:
  "hasDeadIslands h b m \<longleftrightarrow> (\<exists>x \<in> empties h b. card (region h b x) < m)"
proof (cases "m \<le> 1")
  case True
  have "\<not> card (region h b x) < m" if "x \<in> empties h b" for x
    using card_region_pos[OF that] True by simp
  then have "\<not> (\<exists>x \<in> empties h b. card (region h b x) < m)" by blast
  with True show ?thesis by (simp add: hasDeadIslands_def)
next
  case False
  have cl: "closedSet h b {}" by (simp add: closedSet_def)
  have sub: "set scanOrder \<subseteq> grid" by (simp add: set_scanOrder)
  have "islandScan h b m scanOrder {} \<longleftrightarrow>
     (\<exists>x \<in> set scanOrder. x \<in> empties h b \<and> x \<notin> {} \<and> card (region h b x) < m)"
    using cl sub by (rule islandScan_correct)
  also have "\<dots> \<longleftrightarrow> (\<exists>x \<in> empties h b. card (region h b x) < m)"
    using empties_grid[of h b] unfolding set_scanOrder by blast
  finally show ?thesis using False by (simp add: hasDeadIslands_def)
qed

text \<open>The only empty cells are the first two of the top row.\<close>

definition pairHoleStore :: store where
  "pairHoleStore =
     (replicate 2 None @ replicate 9 (Some ''X'')) # replicate 4 (replicate 11 (Some ''X''))"

text \<open>
  Claim C6. For every board and every minimum remaining piece size, \<^verbatim>\<open>hasDeadIslands\<close>
  returns true exactly when some empty cell of the grid lies in a region of edge-connected
  empty cells whose number of cells is strictly smaller than that minimum.
\<close>

theorem hasDeadIslands_iff:
  "hasDeadIslands h b minPieceSize \<longleftrightarrow>
     (\<exists>x \<in> empties h b. card (region h b x) < minPieceSize)"
  by (rule hasDeadIslands_region)

theorem hasDeadIslands_iff_witness:
  "hasDeadIslands pairHoleStore rowRefs 3 \<and>
   (\<exists>x \<in> empties pairHoleStore rowRefs. card (region pairHoleStore rowRefs x) < 3)"
proof -
  have 1: "hasDeadIslands pairHoleStore rowRefs 3" by code_simp
  with hasDeadIslands_iff[of pairHoleStore rowRefs 3] show ?thesis by blast
qed


section \<open>The search finds a tiling when one exists\<close>

subsection \<open>The shapes of the library are connected\<close>

definition shapeAdj :: "(int \<times> int) list \<Rightarrow> ((int \<times> int) \<times> (int \<times> int)) set" where
  "shapeAdj s = {(u, v). u \<in> set s \<and> v \<in> set s \<and> v \<in> set (neighbours u)}"

definition connectedCells :: "(int \<times> int) list \<Rightarrow> bool" where
  "connectedCells s \<longleftrightarrow> (\<forall>x \<in> set s. \<forall>y \<in> set s. (x, y) \<in> (shapeAdj s)\<^sup>*)"

text \<open>A checker that can be run: grow the set of cells reached from the first cell, once
  per cell of the shape.\<close>

fun reach :: "(int \<times> int) list \<Rightarrow> (int \<times> int) list \<Rightarrow> nat \<Rightarrow> (int \<times> int) list" where
  "reach s R 0 = R"
| "reach s R (Suc n) =
     reach s (R @ filter (\<lambda>y. y \<notin> set R \<and> (\<exists>x \<in> set R. y \<in> set (neighbours x))) s) n"

definition checkConnected :: "(int \<times> int) list \<Rightarrow> bool" where
  "checkConnected s \<longleftrightarrow> (case s of [] \<Rightarrow> True | a # _ \<Rightarrow> set s \<subseteq> set (reach s [a] (length s)))"

lemma reach_sound:
  assumes "set R \<subseteq> set s" "\<forall>y \<in> set R. (a, y) \<in> (shapeAdj s)\<^sup>*"
  shows "\<forall>y \<in> set (reach s R n). (a, y) \<in> (shapeAdj s)\<^sup>*"
  using assms
proof (induction n arbitrary: R)
  case 0
  then show ?case by simp
next
  case (Suc n)
  let ?new = "filter (\<lambda>y. y \<notin> set R \<and> (\<exists>x \<in> set R. y \<in> set (neighbours x))) s"
  have sub: "set (R @ ?new) \<subseteq> set s" using Suc.prems(1) by auto
  have "(a, y) \<in> (shapeAdj s)\<^sup>*" if "y \<in> set (R @ ?new)" for y
  proof (cases "y \<in> set R")
    case True
    with Suc.prems(2) show ?thesis by blast
  next
    case False
    with that obtain x where x: "x \<in> set R" "y \<in> set (neighbours x)" "y \<in> set s" by auto
    then have "(x, y) \<in> shapeAdj s" using Suc.prems(1) by (auto simp: shapeAdj_def)
    moreover have "(a, x) \<in> (shapeAdj s)\<^sup>*" using Suc.prems(2) x(1) by blast
    ultimately show ?thesis by (rule rtrancl_into_rtrancl[rotated])
  qed
  then have "\<forall>y \<in> set (R @ ?new). (a, y) \<in> (shapeAdj s)\<^sup>*" by blast
  from Suc.IH[OF sub this] show ?case by simp
qed

lemma sym_shapeAdj: "sym (shapeAdj s)"
  by (auto simp: sym_def shapeAdj_def neighbours_sym)

lemma checkConnected_sound:
  assumes "checkConnected s"
  shows "connectedCells s"
proof (cases s)
  case Nil
  then show ?thesis by (simp add: connectedCells_def)
next
  case (Cons a rest)
  have "\<forall>y \<in> set (reach s [a] (length s)). (a, y) \<in> (shapeAdj s)\<^sup>*"
    by (rule reach_sound) (simp_all add: Cons)
  moreover have "set s \<subseteq> set (reach s [a] (length s))"
    using assms Cons by (simp add: checkConnected_def)
  ultimately have fromA: "(a, y) \<in> (shapeAdj s)\<^sup>*" if "y \<in> set s" for y
    using that by blast
  have symr: "sym ((shapeAdj s)\<^sup>*)" by (rule sym_rtrancl[OF sym_shapeAdj])
  show ?thesis
    unfolding connectedCells_def
  proof (intro ballI)
    fix x y assume "x \<in> set s" "y \<in> set s"
    then have "(a, x) \<in> (shapeAdj s)\<^sup>*" "(a, y) \<in> (shapeAdj s)\<^sup>*" by (simp_all add: fromA)
    then have xa: "(x, a) \<in> (shapeAdj s)\<^sup>*" and ay: "(a, y) \<in> (shapeAdj s)\<^sup>*"
      using symr by (simp_all add: symD)
    from xa ay show "(x, y) \<in> (shapeAdj s)\<^sup>*" by (rule rtrancl_trans)
  qed
qed

lemma orientationTable_connected:
  "list_all (\<lambda>(i, os). list_all checkConnected os) orientationTable"
  by code_simp

lemma orientation_connected:
  assumes "ORIENTATIONS i = Some os" "s \<in> set os"
  shows "connectedCells s"
proof -
  from assms(1) have "(i, os) \<in> set orientationTable"
    unfolding ORIENTATIONS_table by (rule map_of_SomeD)
  with orientationTable_connected have "list_all checkConnected os"
    unfolding list_all_iff by fastforce
  with assms(2) have "checkConnected s" by (simp add: list_all_iff)
  then show ?thesis by (rule checkConnected_sound)
qed

text \<open>A connected shape placed on empty cells lies inside one region.\<close>

lemma neighbours_shift:
  "(c', r') \<in> set (neighbours (c, r)) \<Longrightarrow>
   (col + c', row + r') \<in> set (neighbours (col + c, row + r))"
  by (auto simp: neighbours_def)

lemma placed_shape_in_region:
  assumes con: "connectedCells s"
    and sub: "set (cellsAt s col row) \<subseteq> empties h b"
    and x: "x \<in> set (cellsAt s col row)" and y: "y \<in> set (cellsAt s col row)"
  shows "y \<in> region h b x"
proof -
  let ?f = "\<lambda>(dc, dr). (col + dc, row + dr)"
  have cells: "set (cellsAt s col row) = ?f ` set s" by (simp add: cellsAt_def)
  have step: "(?f u, ?f v) \<in> emptyAdj h b" if "(u, v) \<in> shapeAdj s" for u v
  proof -
    from that have u: "u \<in> set s" and v: "v \<in> set s" and n: "v \<in> set (neighbours u)"
      by (simp_all add: shapeAdj_def)
    have "?f u \<in> empties h b" "?f v \<in> empties h b" using u v sub cells by blast+
    moreover have "?f v \<in> set (neighbours (?f u))"
      using n neighbours_shift[of "fst v" "snd v" "fst u" "snd u" col row]
      by (simp add: split_def)
    ultimately show ?thesis by (simp add: emptyAdj_def)
  qed
  have path: "(?f u, ?f v) \<in> (emptyAdj h b)\<^sup>*" if "(u, v) \<in> (shapeAdj s)\<^sup>*" for u v
    using that
  proof (induction rule: rtrancl_induct)
    case base
    show ?case by simp
  next
    case (step v w)
    from step.IH \<open>(v, w) \<in> shapeAdj s\<close>[THEN \<open>\<And>u v. (u, v) \<in> shapeAdj s \<Longrightarrow> (?f u, ?f v) \<in> emptyAdj h b\<close>]
    show ?case by (rule rtrancl_into_rtrancl)
  qed
  from x y cells obtain u v where uv: "u \<in> set s" "x = ?f u" "v \<in> set s" "y = ?f v" by blast
  with con have "(u, v) \<in> (shapeAdj s)\<^sup>*" by (simp add: connectedCells_def)
  from path[OF this] uv show ?thesis by (simp add: region_def)
qed

subsection \<open>Pruning never cuts a branch that has a tiling\<close>

lemma minLoop_le:
  assumes "minLoop ids acc = Return r"
  shows "(\<forall>a. acc = Some a \<longrightarrow> (\<exists>m. r = Some m \<and> m \<le> a)) \<and>
         (\<forall>i \<in> set ids. \<forall>pc. PIECE_MAP i = Some pc \<longrightarrow> (\<exists>m. r = Some m \<and> m \<le> length (pshape pc)))"
  using assms
proof (induction ids arbitrary: acc)
  case Nil
  then show ?case by simp
next
  case (Cons i ids)
  from Cons.prems obtain pc where pc: "PIECE_MAP i = Some pc"
    by (cases "PIECE_MAP i") simp_all
  let ?acc' = "case acc of None \<Rightarrow> Some (length (pshape pc))
               | Some m \<Rightarrow> if length (pshape pc) < m then Some (length (pshape pc)) else Some m"
  have run: "minLoop ids ?acc' = Return r" using Cons.prems pc by (simp add: Let_def)
  note IH = Cons.IH[OF run]
  have "\<exists>a'. ?acc' = Some a' \<and> a' \<le> length (pshape pc) \<and> (\<forall>a. acc = Some a \<longrightarrow> a' \<le> a)"
    by (cases acc) simp_all
  then obtain a' where a': "?acc' = Some a'" "a' \<le> length (pshape pc)"
    "\<forall>a. acc = Some a \<longrightarrow> a' \<le> a"
    by blast
  from IH a'(1) obtain m where m: "r = Some m" "m \<le> a'" by blast
  show ?case
  proof (intro conjI allI impI ballI)
    fix a assume "acc = Some a"
    with a'(3) m show "\<exists>m. r = Some m \<and> m \<le> a" by auto
  next
    fix j pc' assume j: "j \<in> set (i # ids)" and pc': "PIECE_MAP j = Some pc'"
    show "\<exists>m. r = Some m \<and> m \<le> length (pshape pc')"
    proof (cases "j = i")
      case True
      with pc pc' have "pc' = pc" by simp
      with m a'(2) show ?thesis by auto
    next
      case False
      with j have "j \<in> set ids" by simp
      with IH pc' show ?thesis by blast
    qed
  qed
qed

lemma newMinSize_le:
  assumes "newMinSize ids = Return m" "i \<in> set ids" "PIECE_MAP i = Some pc"
  shows "m \<le> length (pshape pc)"
proof -
  from assms(1) obtain r where r: "minLoop ids None = Return r"
    by (cases "minLoop ids None") (simp_all add: newMinSize_def)
  from minLoop_le[OF r] assms(2,3) obtain m' where m': "r = Some m'" "m' \<le> length (pshape pc)"
    by blast
  with assms(1) r show ?thesis by (simp add: newMinSize_def)
qed

lemma validPlacement_piece:
  assumes "validPlacement q"
  obtains os pc where "ORIENTATIONS (p_pieceId q) = Some os" "p_shape q \<in> set os"
    "PIECE_MAP (p_pieceId q) = Some pc" "length (p_shape q) = length (pshape pc)"
proof -
  from assms obtain os where os: "ORIENTATIONS (p_pieceId q) = Some os"
    "p_orientationIndex q < length os" "os ! p_orientationIndex q = p_shape q"
    by (auto simp: validPlacement_def split: option.splits)
  from os(2,3) have mem: "p_shape q \<in> set os" by (metis nth_mem)
  from os(1) obtain pc where pc: "pc \<in> set PIECES" "pid pc = p_pieceId q"
    "os = getAllOrientations (pshape pc)"
    by (auto simp: ORIENTATIONS_Some)
  have 1: "PIECE_MAP (p_pieceId q) = Some pc" using pc by (simp add: PIECE_MAP_Some)
  have 2: "length (p_shape q) = length (pshape pc)"
    using mem pc(3) by (simp add: getAllOrientations_lengths)
  from that[OF os(1) mem 1 2] show thesis .
qed

lemma tiling_no_dead_islands:
  assumes t: "tiling b h ids ps" and m: "newMinSize ids = Return m"
  shows "\<not> hasDeadIslands h b m"
proof
  assume "hasDeadIslands h b m"
  then obtain x where x: "x \<in> empties h b" "card (region h b x) < m"
    unfolding hasDeadIslands_region by blast
  from t have cover: "set (concat (map cellsOf ps)) = empties h b"
    and dist: "distinct (concat (map cellsOf ps))"
    and ids: "set (map p_pieceId ps) \<subseteq> set ids"
    and valid: "list_all validPlacement ps"
    by (simp_all add: tiling_def)
  from x(1) cover obtain q where q: "q \<in> set ps" "x \<in> set (cellsOf q)" by auto
  have sub: "set (cellsOf q) \<subseteq> empties h b" using q(1) cover by auto
  have dq: "distinct (cellsOf q)" using dist q(1) by (auto simp: distinct_concat_iff)
  from valid q(1) have vq: "validPlacement q" by (simp add: list_all_iff)
  from vq obtain os pc where os: "ORIENTATIONS (p_pieceId q) = Some os" "p_shape q \<in> set os"
    and pc: "PIECE_MAP (p_pieceId q) = Some pc" "length (p_shape q) = length (pshape pc)"
    by (rule validPlacement_piece)
  have con: "connectedCells (p_shape q)" using os by (rule orientation_connected)
  have "set (cellsOf q) \<subseteq> region h b x"
  proof
    fix y assume "y \<in> set (cellsOf q)"
    with con sub q(2) show "y \<in> region h b x"
      unfolding cellsOf_def by (intro placed_shape_in_region)
  qed
  then have "card (set (cellsOf q)) \<le> card (region h b x)"
    using finite_region[OF x(1)] by (simp add: card_mono)
  moreover have "card (set (cellsOf q)) = length (p_shape q)"
    using distinct_card[OF dq] by (simp add: cellsOf_def cellsAt_def)
  moreover have "m \<le> length (pshape pc)"
    using m pc(1) ids q(1) by (intro newMinSize_le[where i="p_pieceId q"]) auto
  ultimately show False using x(2) pc(2) by simp
qed

text \<open>Taking one placement out of a tiling leaves a tiling of the board on which that
  placement has been made.\<close>

lemma distinct_drop_middle:
  assumes "distinct (A @ B @ C)"
  shows "distinct (A @ C)" and "set (A @ C) = set (A @ B @ C) - set B"
  using assms by auto

lemma tiling_remove:
  assumes wf: "wf_board h b" and t: "tiling b h ids (ps1 @ p # ps2)"
  shows "canPlace h b (p_shape p) (p_col p) (p_row p)"
    and "tiling b (placePiece h b (p_pieceId p) (p_shape p) (p_col p) (p_row p))
           (setDelete (p_pieceId p) ids) (ps1 @ ps2)"
proof -
  let ?cs = "cellsAt (p_shape p) (p_col p) (p_row p)"
  let ?A = "concat (map cellsOf ps1)" and ?C = "concat (map cellsOf ps2)"
  have split: "concat (map cellsOf (ps1 @ p # ps2)) = ?A @ ?cs @ ?C"
    by (simp add: cellsOf_def)
  have split2: "concat (map cellsOf (ps1 @ ps2)) = ?A @ ?C" by simp
  from t have cover: "set (?A @ ?cs @ ?C) = empties h b"
    and dist: "distinct (?A @ ?cs @ ?C)"
    unfolding tiling_def split by simp_all
  from t have ids: "set (map p_pieceId (ps1 @ p # ps2)) \<subseteq> set ids"
    and dids: "distinct (map p_pieceId (ps1 @ p # ps2))"
    and valid: "list_all validPlacement (ps1 @ p # ps2)"
    by (simp_all add: tiling_def)
  have sub: "set ?cs \<subseteq> empties h b" using cover by auto
  then show "canPlace h b (p_shape p) (p_col p) (p_row p)" by (simp add: canPlace_iff)
  have g: "set ?cs \<subseteq> grid" using sub empties_grid by blast
  have e1: "empties (placePiece h b (p_pieceId p) (p_shape p) (p_col p) (p_row p)) b
        = empties h b - set ?cs"
    by (simp add: placePiece_writeCells empties_writeCells_Some[OF wf g])
  have d2: "distinct (?A @ ?C)" using dist by (rule distinct_drop_middle)
  have "set (?A @ ?C) = set (?A @ ?cs @ ?C) - set ?cs" using dist by (rule distinct_drop_middle)
  then have c2: "set (?A @ ?C) = empties h b - set ?cs" unfolding cover .
  have i1: "set (map p_pieceId (ps1 @ ps2)) \<subseteq> set ids" using ids by auto
  have i2: "p_pieceId p \<notin> set (map p_pieceId (ps1 @ ps2))" using dids by auto
  have i3: "set (map p_pieceId (ps1 @ ps2)) \<subseteq> set ids - {p_pieceId p}"
    using i1 i2 by blast
  have d3: "distinct (map p_pieceId (ps1 @ ps2))" using dids by simp
  have v3: "list_all validPlacement (ps1 @ ps2)" using valid by simp
  show "tiling b (placePiece h b (p_pieceId p) (p_shape p) (p_col p) (p_row p))
           (setDelete (p_pieceId p) ids) (ps1 @ ps2)"
    unfolding tiling_def e1 set_setDelete split2
    using d2 c2 i3 d3 v3 by (intro conjI)
qed

subsection \<open>The loops reach the placement that covers the first empty cell\<close>

definition finds :: "(bool \<times> sstate) outcome \<Rightarrow> bool" where
  "finds r \<longleftrightarrow> (\<exists>st'. r = Return (True, st'))"

definition promising :: "board \<Rightarrow> nat \<Rightarrow> sstate \<Rightarrow> placement list \<Rightarrow> bool" where
  "promising b fuel st ps \<longleftrightarrow>
     wf_board (st_store st) b \<and> known (st_remaining st) \<and>
     card (empties (st_store st) b) \<le> fuel \<and>
     tiling b (st_store st) (st_remaining st) ps"

lemma tiling_cong:
  assumes "set ids' = set ids" "empties h' b' = empties h b" "tiling b h ids ps"
  shows "tiling b' h' ids' ps"
  using assms by (simp add: tiling_def)

lemma promising_sim:
  assumes "sim st st'" "promising b fuel st ps"
  shows "promising b fuel st' ps"
  using assms by (simp add: promising_def sim_def known_def tiling_def)

lemma finds_continue: "finds r \<Longrightarrow> finds (continue r k)"
  by (auto simp: finds_def continue_def)

lemma continue_False: "continue (Return (False, st')) k = k st'"
  by (simp add: continue_def)

lemma verdict_cases:
  assumes "verdict b st n r" "card (empties (st_store st) b) \<le> n" "known (st_remaining st)"
  shows "finds r \<or> (\<exists>st'. r = Return (False, st') \<and> sim st st')"
proof (cases r)
  case OutOfFuel
  with assms show ?thesis by (simp add: verdict_def)
next
  case TypeError
  with assms show ?thesis by (simp add: verdict_def)
next
  case (Return y)
  obtain res st' where y: "y = (res, st')" by (cases y)
  show ?thesis
  proof (cases res)
    case True
    with Return y show ?thesis by (simp add: finds_def)
  next
    case False
    with assms(1) Return y have "sim st st'" by (simp add: verdict_def post_def)
    with Return y False show ?thesis by simp
  qed
qed

lemma solveCells_complete:
  assumes H: "\<And>m st ps. wf_board (st_store st) b \<Longrightarrow> known (st_remaining st) \<Longrightarrow>
      card (empties (st_store st) b) < fuel \<Longrightarrow> tiling b (st_store st) (st_remaining st) ps \<Longrightarrow>
      finds (solve' fuel b m st)"
    and pr: "promising b fuel st (ps1 @ p # ps2)"
    and anchor: "(fst target - p_col p, snd target - p_row p) \<in> set cells"
    and sub: "set cells \<subseteq> set (p_shape p)"
  shows "finds (solveCells fuel b target (p_pieceId p) oi (p_shape p) cells st)"
  using pr anchor sub
proof (induction cells arbitrary: st)
  case Nil
  then show ?case by simp
next
  case (Cons x cells)
  obtain dc dr where x: "x = (dc, dr)" by (cases x)
  obtain tc tr where target: "target = (tc, tr)" by (cases target)
  let ?pieceId = "p_pieceId p" and ?shape = "p_shape p"
  let ?col = "fst target - dc" and ?row = "snd target - dr"
  let ?h = "st_store st"
  let ?h1 = "placePiece ?h b ?pieceId ?shape ?col ?row"
  note pr = Cons.prems(1)
  from pr have wf: "wf_board ?h b" and kn: "known (st_remaining st)"
    and fl: "card (empties ?h b) \<le> fuel"
    and t: "tiling b ?h (st_remaining st) (ps1 @ p # ps2)"
    by (simp_all add: promising_def)
  from t have mem: "?pieceId \<in> set (st_remaining st)" by (simp add: tiling_def)
  have sub': "set cells \<subseteq> set ?shape" using Cons.prems(3) by simp
  have xin: "(dc, dr) \<in> set ?shape" using Cons.prems(3) x by simp
  have here: "?col = p_col p \<and> ?row = p_row p"
    if "(dc, dr) = (fst target - p_col p, snd target - p_row p)"
    using that by auto
  have later: "(fst target - p_col p, snd target - p_row p) \<in> set cells"
    if "(dc, dr) \<noteq> (fst target - p_col p, snd target - p_row p)"
    using that Cons.prems(2) x by auto
  note tr1 = tiling_remove(1)[OF wf t]
  note tr2 = tiling_remove(2)[OF wf t]
  show ?case
  proof (cases "canPlace ?h b ?shape ?col ?row")
    case False
    have "(dc, dr) \<noteq> (fst target - p_col p, snd target - p_row p)"
    proof
      assume "(dc, dr) = (fst target - p_col p, snd target - p_row p)"
      from here[OF this] False tr1 show False by simp
    qed
    from Cons.IH[OF pr later[OF this] sub'] show ?thesis
      unfolding x solveCells_skip[OF False] .
  next
    case cp: True
    have wf1: "wf_board ?h1 b"
      using wf by (simp add: placePiece_writeCells wf_board_writeCells)
    have restore: "removePiece ?h1 b ?pieceId ?shape ?col ?row = ?h"
      using wf cp by (rule place_then_remove)
    have less: "card (empties ?h1 b) < card (empties ?h b)"
      using wf cp target_in_cellsAt[OF xin, of tc tr]
      by (intro card_empties_placePiece) (simp_all add: target)
    have readd: "set (setAdd ?pieceId (setDelete ?pieceId (st_remaining st))) = set (st_remaining st)"
      using mem by (auto simp: set_setAdd set_setDelete)
    have kn1: "known (setDelete ?pieceId (st_remaining st))" using kn by (rule known_setDelete)
    show ?thesis
    proof (cases "newMinSize (setDelete ?pieceId (st_remaining st))")
      case OutOfFuel
      then show ?thesis using newMinSize_result by blast
    next
      case TypeError
      then show ?thesis using newMinSize_result kn1 by blast
    next
      case (Return newMin)
      show ?thesis
      proof (cases "hasDeadIslands ?h1 b newMin")
        case True
        have ne: "(dc, dr) \<noteq> (fst target - p_col p, snd target - p_row p)"
        proof
          assume "(dc, dr) = (fst target - p_col p, snd target - p_row p)"
          from here[OF this] tr2
          have "tiling b ?h1 (setDelete ?pieceId (st_remaining st)) (ps1 @ ps2)" by simp
          from tiling_no_dead_islands[OF this Return] True show False by simp
        qed
        let ?st' = "st\<lparr>st_remaining := setAdd ?pieceId (setDelete ?pieceId (st_remaining st)),
                       st_store := removePiece ?h1 b ?pieceId ?shape ?col ?row\<rparr>"
        have s: "sim st ?st'" using restore readd by (simp add: sim_def)
        from Cons.IH[OF promising_sim[OF s pr] later[OF ne] sub'] show ?thesis
          unfolding x solveCells_pruned[OF cp Return True] .
      next
        case False
        let ?q = "\<lparr>p_pieceId = ?pieceId, p_shape = ?shape, p_col = ?col,
                    p_row = ?row, p_orientationIndex = oi\<rparr>"
        let ?st1 = "st\<lparr>st_store := ?h1,
                        st_remaining := setDelete ?pieceId (st_remaining st),
                        st_solution := st_solution st @ [?q]\<rparr>"
        let ?k = "\<lambda>st2. solveCells fuel b target ?pieceId oi ?shape cells
              (st2\<lparr>st_solution := butlast (st_solution st2),
                   st_remaining := setAdd ?pieceId (st_remaining st2),
                   st_store := removePiece (st_store st2) b ?pieceId ?shape ?col ?row\<rparr>)"
        let ?r = "solve' fuel b newMin ?st1"
        have eq: "solveCells fuel b target ?pieceId oi ?shape (x # cells) st = continue ?r ?k"
          unfolding x by (rule solveCells_recurse[OF cp Return False])
        have less1: "card (empties ?h1 b) < fuel" using less fl by simp
        show ?thesis
        proof (cases "(dc, dr) = (fst target - p_col p, snd target - p_row p)")
          case True
          from here[OF this] tr2
          have "tiling b ?h1 (setDelete ?pieceId (st_remaining st)) (ps1 @ ps2)" by simp
          with H[of ?st1 "ps1 @ ps2" newMin] wf1 kn1 less1 have "finds ?r" by simp
          then show ?thesis unfolding eq by (rule finds_continue)
        next
          case ne: False
          from solve'_verdict[of ?st1 b fuel newMin] wf1 kn1 less1
          have v: "verdict b ?st1 (card (empties ?h1 b)) ?r"
            by (simp add: verdict_def)
          from verdict_cases[OF v] kn1
          have "finds ?r \<or> (\<exists>st2. ?r = Return (False, st2) \<and> sim ?st1 st2)" by simp
          then show ?thesis
          proof
            assume "finds ?r"
            then show ?thesis unfolding eq by (rule finds_continue)
          next
            assume "\<exists>st2. ?r = Return (False, st2) \<and> sim ?st1 st2"
            then obtain st2 where r: "?r = Return (False, st2)" and s12: "sim ?st1 st2" by blast
            let ?st3 = "st2\<lparr>st_solution := butlast (st_solution st2),
                   st_remaining := setAdd ?pieceId (st_remaining st2),
                   st_store := removePiece (st_store st2) b ?pieceId ?shape ?col ?row\<rparr>"
            have s: "sim st ?st3"
              using s12 restore mem
              by (auto simp: sim_def set_setAdd set_setDelete)
            from Cons.IH[OF promising_sim[OF s pr] later[OF ne] sub'] show ?thesis
              unfolding eq r continue_False .
          qed
        qed
      qed
    qed
  qed
qed

lemma solveOrients_complete:
  assumes H: "\<And>m st ps. wf_board (st_store st) b \<Longrightarrow> known (st_remaining st) \<Longrightarrow>
      card (empties (st_store st) b) < fuel \<Longrightarrow> tiling b (st_store st) (st_remaining st) ps \<Longrightarrow>
      finds (solve' fuel b m st)"
    and pr: "promising b fuel st (ps1 @ p # ps2)"
    and tgt: "target \<in> set (cellsOf p)"
    and os: "ORIENTATIONS (p_pieceId p) = Some os" "p_orientationIndex p < length os"
      "os ! p_orientationIndex p = p_shape p"
    and dr: "drop oi os = shapes" and le: "oi \<le> p_orientationIndex p"
  shows "finds (solveOrients fuel b target (p_pieceId p) oi shapes st)"
  using pr dr le
proof (induction shapes arbitrary: st oi)
  case Nil
  with os(2) show ?case by simp
next
  case (Cons shape shapes)
  note pr = Cons.prems(1)
  from pr have wf: "wf_board (st_store st) b" and kn: "known (st_remaining st)"
    and fl: "card (empties (st_store st) b) \<le> fuel"
    and t: "tiling b (st_store st) (st_remaining st) (ps1 @ p # ps2)"
    by (simp_all add: promising_def)
  from t have mem: "p_pieceId p \<in> set (st_remaining st)" by (simp add: tiling_def)
  have lt: "oi < length os"
    using Cons.prems(2) by (cases "oi < length os") simp_all
  have oi: "os ! oi = shape" "drop (Suc oi) os = shapes"
    using Cons.prems(2) Cons_nth_drop_Suc[OF lt] by simp_all
  let ?r = "solveCells fuel b target (p_pieceId p) oi shape shape st"
  show ?case
    unfolding solveOrients_Cons
  proof (cases "oi = p_orientationIndex p")
    case True
    then have sh: "shape = p_shape p" using oi(1) os(3) by simp
    have a: "(fst target - p_col p, snd target - p_row p) \<in> set (p_shape p)"
      using tgt by (auto simp: cellsOf_def cellsAt_def)
    have "finds (solveCells fuel b target (p_pieceId p) oi (p_shape p) (p_shape p) st)"
      by (rule solveCells_complete[OF H pr a subset_refl])
    then show "finds (continue ?r (solveOrients fuel b target (p_pieceId p) (Suc oi) shapes))"
      unfolding sh by (rule finds_continue)
  next
    case False
    then have le': "Suc oi \<le> p_orientationIndex p" using Cons.prems(3) by simp
    have v: "verdict b st fuel ?r"
      by (rule solveCells_verdict[OF solve'_verdict wf mem os(1) lt oi(1) subset_refl])
    from verdict_cases[OF v fl kn]
    show "finds (continue ?r (solveOrients fuel b target (p_pieceId p) (Suc oi) shapes))"
    proof
      assume "finds ?r"
      then show ?thesis by (rule finds_continue)
    next
      assume "\<exists>st'. ?r = Return (False, st') \<and> sim st st'"
      then obtain st' where r: "?r = Return (False, st')" and s: "sim st st'" by blast
      from Cons.IH[OF promising_sim[OF s pr] oi(2) le'] show ?thesis
        unfolding r continue_False .
    qed
  qed
qed

lemma solvePieces_complete:
  assumes H: "\<And>m st ps. wf_board (st_store st) b \<Longrightarrow> known (st_remaining st) \<Longrightarrow>
      card (empties (st_store st) b) < fuel \<Longrightarrow> tiling b (st_store st) (st_remaining st) ps \<Longrightarrow>
      finds (solve' fuel b m st)"
    and pr: "promising b fuel st (ps1 @ p # ps2)"
    and tgt: "target \<in> set (cellsOf p)"
    and sub: "set ids \<subseteq> set (st_remaining st)"
    and pin: "p_pieceId p \<in> set ids"
  shows "finds (solvePieces fuel b target ids st)"
  using pr sub pin
proof (induction ids arbitrary: st)
  case Nil
  then show ?case by simp
next
  case (Cons pieceId ids)
  note pr = Cons.prems(1)
  from pr have wf: "wf_board (st_store st) b" and kn: "known (st_remaining st)"
    and fl: "card (empties (st_store st) b) \<le> fuel"
    and t: "tiling b (st_store st) (st_remaining st) (ps1 @ p # ps2)"
    by (simp_all add: promising_def)
  have mem: "pieceId \<in> set (st_remaining st)" using Cons.prems(2) by simp
  have "ORIENTATIONS pieceId \<noteq> None"
    using mem kn by (auto simp: known_def ORIENTATIONS_None)
  then obtain os where os: "ORIENTATIONS pieceId = Some os" by blast
  let ?r = "solveOrients fuel b target pieceId 0 os st"
  show ?case
    unfolding solvePieces_Cons os option.case
  proof (cases "pieceId = p_pieceId p")
    case True
    from t have "validPlacement p" by (simp add: tiling_def)
    with os True have idx: "p_orientationIndex p < length os" "os ! p_orientationIndex p = p_shape p"
      by (simp_all add: validPlacement_def)
    have "finds (solveOrients fuel b target (p_pieceId p) 0 os st)"
      by (rule solveOrients_complete[OF H pr tgt os[unfolded True] idx drop_0 le0])
    then show "finds (continue ?r (solvePieces fuel b target ids))"
      unfolding True by (rule finds_continue)
  next
    case False
    then have pin': "p_pieceId p \<in> set ids" using Cons.prems(3) by auto
    have v: "verdict b st fuel ?r"
      by (rule solveOrients_verdict[OF solve'_verdict wf mem os drop_0])
    from verdict_cases[OF v fl kn]
    show "finds (continue ?r (solvePieces fuel b target ids))"
    proof
      assume "finds ?r"
      then show ?thesis by (rule finds_continue)
    next
      assume "\<exists>st'. ?r = Return (False, st') \<and> sim st st'"
      then obtain st' where r: "?r = Return (False, st')" and s: "sim st st'" by blast
      have sub': "set ids \<subseteq> set (st_remaining st')"
        using Cons.prems(2) s by (auto simp: sim_def)
      from Cons.IH[OF promising_sim[OF s pr] sub' pin'] show ?thesis
        unfolding r continue_False .
    qed
  qed
qed

lemma solve'_complete:
  assumes "wf_board (st_store st) b" "known (st_remaining st)"
    "card (empties (st_store st) b) < fuel" "tiling b (st_store st) (st_remaining st) ps"
  shows "finds (solve' fuel b m st)"
  using assms
proof (induction fuel arbitrary: m st ps)
  case 0
  then show ?case by simp
next
  case (Suc fuel)
  show ?case
  proof (cases "findFirstEmpty (st_store st) b")
    case None
    then show ?thesis by (simp add: finds_def)
  next
    case (Some target)
    then have "target \<in> empties (st_store st) b" by (rule findFirstEmpty_Some)
    with Suc.prems(4) have "target \<in> set (concat (map cellsOf ps))" by (simp add: tiling_def)
    then obtain p where p: "p \<in> set ps" "target \<in> set (cellsOf p)" by auto
    from split_list[OF p(1)] obtain ps1 ps2 where ps: "ps = ps1 @ p # ps2" by blast
    have pr: "promising b fuel st (ps1 @ p # ps2)"
      using Suc.prems ps by (simp add: promising_def)
    have pin: "p_pieceId p \<in> set (st_remaining st)"
      using Suc.prems(4) p(1) by (auto simp: tiling_def)
    have "finds (solvePieces fuel b target (st_remaining st) st)"
      using Suc.IH pr p(2) subset_refl pin by (rule solvePieces_complete)
    then show ?thesis using Some by simp
  qed
qed

lemma solve_complete:
  assumes wf: "wf_board h b" and kn: "known ids" and t: "tiling b h ids ps"
  shows "\<exists>sol h'. solve h b ids = Return (Some sol, h')"
proof -
  obtain h1 wb where cb: "cloneBoard h b = (h1, wb)" by (cases "cloneBoard h b")
  have wf1: "wf_board h1 wb" using wf cb by (rule cloneBoard_wf)
  have e: "empties h1 wb = empties h b" using wf cb by (rule cloneBoard_empties)
  have kn0: "known (setOf ids)" using kn by (simp add: known_def set_setOf)
  with sortLargerFirst_result[of "setOf ids"] obtain ids' where
    so: "sortLargerFirst (setOf ids) = Return ids'"
    by (cases "sortLargerFirst (setOf ids)") auto
  have s: "set (setOf ids') = set ids"
    using sortLargerFirst_set[OF so] by (simp add: set_setOf)
  let ?st = "\<lparr>st_store = h1, st_remaining = setOf ids', st_solution = []\<rparr>"
  have kn1: "known (st_remaining ?st)" using kn s by (simp add: known_def)
  have t1: "tiling wb (st_store ?st) (st_remaining ?st) ps"
    using tiling_cong[OF s e t] by simp
  have "finds (solve' searchFuel wb 3 ?st)"
    using wf1 kn1 card_empties_fuel[of h1 wb] t1 by (intro solve'_complete) simp_all
  then obtain st' where "solve' searchFuel wb 3 ?st = Return (True, st')"
    by (auto simp: finds_def)
  then show ?thesis by (simp add: solve_def cb so)
qed

subsection \<open>The full library on the empty board\<close>

text \<open>Twelve placements, one per piece of the library, that tile the 5 by 11 grid.\<close>

definition emptyBoardTiling :: "placement list" where
  "emptyBoardTiling =
     [\<lparr>p_pieceId = ''B'', p_shape = [(0, 0), (1, 0), (1, 1), (2, 1), (2, 2)],
       p_col = 0, p_row = 0, p_orientationIndex = 0\<rparr>,
      \<lparr>p_pieceId = ''D'', p_shape = [(0, 0), (1, 0), (2, 0), (3, 0), (3, 1)],
       p_col = 2, p_row = 0, p_orientationIndex = 0\<rparr>,
      \<lparr>p_pieceId = ''E'', p_shape = [(0, 0), (1, 0), (1, 1), (2, 1), (3, 1)],
       p_col = 6, p_row = 0, p_orientationIndex = 0\<rparr>,
      \<lparr>p_pieceId = ''A'', p_shape = [(0, 0), (1, 0), (2, 0), (2, 1)],
       p_col = 8, p_row = 0, p_orientationIndex = 0\<rparr>,
      \<lparr>p_pieceId = ''F'', p_shape = [(0, 0), (0, 1), (1, 1), (0, 2), (0, 3)],
       p_col = 0, p_row = 1, p_orientationIndex = 7\<rparr>,
      \<lparr>p_pieceId = ''K'', p_shape = [(0, 0), (1, 0), (0, 1), (1, 1)],
       p_col = 3, p_row = 1, p_orientationIndex = 0\<rparr>,
      \<lparr>p_pieceId = ''J'', p_shape = [(0, 0), (0, 1), (1, 1), (1, 2), (2, 2)],
       p_col = 6, p_row = 1, p_orientationIndex = 0\<rparr>,
      \<lparr>p_pieceId = ''G'', p_shape = [(3, 0), (0, 1), (1, 1), (2, 1), (3, 1)],
       p_col = 2, p_row = 2, p_orientationIndex = 4\<rparr>,
      \<lparr>p_pieceId = ''I'', p_shape = [(0, 0), (1, 0), (1, 1), (0, 2), (1, 2)],
       p_col = 8, p_row = 2, p_orientationIndex = 1\<rparr>,
      \<lparr>p_pieceId = ''L'', p_shape = [(0, 0), (0, 1), (0, 2)],
       p_col = 10, p_row = 2, p_orientationIndex = 1\<rparr>,
      \<lparr>p_pieceId = ''H'', p_shape = [(0, 0), (0, 1), (1, 1), (2, 1), (3, 1)],
       p_col = 1, p_row = 3, p_orientationIndex = 6\<rparr>,
      \<lparr>p_pieceId = ''C'', p_shape = [(1, 0), (0, 1), (1, 1), (2, 1)],
       p_col = 5, p_row = 3, p_orientationIndex = 2\<rparr>]"

lemma createEmptyBoard_wf: "wf_board (fst (createEmptyBoard h)) (snd (createEmptyBoard h))"
  by (auto simp: createEmptyBoard_def wf_board_def list_all_iff nth_append ROWS_def COLS_def)

lemma createEmptyBoard_empties:
  "empties (fst (createEmptyBoard h)) (snd (createEmptyBoard h)) = grid"
proof -
  let ?h = "fst (createEmptyBoard h)" and ?b = "snd (createEmptyBoard h)"
  have "isNull ?h ?b r c" if g: "(c, r) \<in> grid" for c r
  proof -
    from g have r: "0 \<le> r" "nat r < nat ROWS" and c: "0 \<le> c" "nat c < nat COLS"
      by (auto simp: grid_iff ROWS_def COLS_def)
    have row: "?b ! nat r = length h + nat r" using r by (simp add: createEmptyBoard_def)
    have "?h ! (length h + nat r) = replicate (nat COLS) None"
      using r by (simp add: createEmptyBoard_def nth_append)
    then have "?h ! (?b ! nat r) ! nat c = None" using c row by simp
    then show ?thesis using isNull_wf[OF createEmptyBoard_wf g] by simp
  qed
  then show ?thesis by (auto simp: empties_def)
qed

lemma library_known: "known (map pid PIECES)"
  by (simp add: known_def)

lemma emptyBoardTiling_ids:
  "distinct (map p_pieceId emptyBoardTiling) \<and>
   set (map p_pieceId emptyBoardTiling) \<subseteq> set (map pid PIECES)"
  by code_simp

lemma emptyBoardTiling_valid: "list_all validPlacement emptyBoardTiling"
  by code_simp

lemma emptyBoardTiling_cells:
  "distinct (concat (map cellsOf emptyBoardTiling)) \<and>
   set (concat (map cellsOf emptyBoardTiling)) = set scanOrder"
  by code_simp

lemma emptyBoardTiling_tiling:
  "tiling (snd (createEmptyBoard h)) (fst (createEmptyBoard h)) (map pid PIECES) emptyBoardTiling"
  unfolding tiling_def createEmptyBoard_empties
  using emptyBoardTiling_ids emptyBoardTiling_valid emptyBoardTiling_cells
  by (simp only: set_scanOrder simp_thms)

lemma library_cell_count: "sum_list (map (\<lambda>p. length (pshape p)) PIECES) = 55"
  by (simp add: PIECES_def)

text \<open>
  Claim C1. On an empty board, with the twelve pieces of the library (55 cells in all),
  \<^verbatim>\<open>solve\<close> returns a solution, and the cells of the returned placements are pairwise
  different and are exactly the 55 cells of the grid.
\<close>

theorem solve_empty_board:
  "sum_list (map (\<lambda>p. length (pshape p)) PIECES) = 55 \<and> card grid = 55 \<and>
   (\<exists>sol h'. solve (fst (createEmptyBoard h)) (snd (createEmptyBoard h)) (map pid PIECES) =
        Return (Some sol, h') \<and>
      distinct (concat (map cellsOf sol)) \<and>
      set (concat (map cellsOf sol)) = grid \<and>
      length (concat (map cellsOf sol)) = 55)"
proof -
  let ?h = "fst (createEmptyBoard h)" and ?b = "snd (createEmptyBoard h)"
  let ?ids = "map pid PIECES"
  have wf: "wf_board ?h ?b" by (rule createEmptyBoard_wf)
  from solve_complete[OF wf library_known emptyBoardTiling_tiling]
  obtain sol h' where s: "solve ?h ?b ?ids = Return (Some sol, h')" by blast
  with solve_cases[OF wf, of ?ids]
  obtain h1 wb where cb: "cloneBoard ?h ?b = (h1, wb)" and t: "tiling wb h1 ?ids sol"
    by blast
  have e: "empties h1 wb = grid"
    using cloneBoard_empties[OF wf cb] createEmptyBoard_empties by simp
  from t have d: "distinct (concat (map cellsOf sol))"
    and c: "set (concat (map cellsOf sol)) = grid"
    by (simp_all add: tiling_def e)
  have "length (concat (map cellsOf sol)) = card (set (concat (map cellsOf sol)))"
    using d by (rule distinct_card[symmetric])
  then have l: "length (concat (map cellsOf sol)) = 55" unfolding c card_grid .
  from s d c l have "\<exists>sol h'. solve ?h ?b ?ids = Return (Some sol, h') \<and>
      distinct (concat (map cellsOf sol)) \<and>
      set (concat (map cellsOf sol)) = grid \<and>
      length (concat (map cellsOf sol)) = 55" by blast
  with library_cell_count card_grid show ?thesis by blast
qed

end
